theory Spec2Isabelle
  imports Complex_Main "HOL-Library.Word" "HOL-Library.Sublist"
begin

chapter \<open>The model\<close>

section \<open>JavaScript strings\<close>

text \<open>
  A JavaScript string is a sequence of UTF-16 code units; \<open>length\<close>, \<open>indexOf\<close>,
  \<open>slice\<close> and the regular expressions of \<open>utils.ts\<close> (none has the \<open>u\<close> flag) all count
  code units. \<open>str\<close> embeds an ASCII literal.
\<close>

type_synonym jsstring = "16 word list"

definition str :: "string \<Rightarrow> jsstring" where
  "str s = map of_char s"

text \<open>The template literal \<open>`${x}`\<close> of an undefined \<open>x\<close> prints as this string.\<close>

definition undefined_str :: jsstring where
  "undefined_str = str ''undefined''"

definition nbsp :: jsstring where
  "nbsp = [0xA0]"

datatype error =
    SegmenterMissing  \<comment> \<open>\<open>Error('Intl.Segmenter does not exist, ...')\<close>\<close>
  | RangeError        \<comment> \<open>\<open>new Intl.Segmenter\<close> refuses the locale\<close>
  | TypeError         \<comment> \<open>a property read on \<open>undefined\<close>\<close>
  | ParseError        \<comment> \<open>thrown by the \<open>CssDimension\<close> constructor\<close>

section \<open>Segmentation: \<open>segment\<close>\<close>

text \<open>
  \<open>Intl.Segmenter\<close> belongs to the platform. A constructed segmenter is taken as the function
  from a string to the list of its \<open>seg.segment\<close> strings; the constructor is a parameter,
  absent (\<open>None\<close>) where the platform has no \<open>Intl.Segmenter\<close>, and failing with a
  \<open>RangeError\<close> on a locale it rejects. The two module-level variables \<open>wordSegmenter\<close> and
  \<open>graphemeSegmenter\<close> are the state \<open>seg_state\<close>, passed in and returned. The state reached
  when a constructor throws is not tracked: the exception is the result.
\<close>

type_synonym segmenter = "jsstring \<Rightarrow> jsstring list"

datatype granularity = GWord | GGrapheme

type_synonym intl = "(jsstring option \<Rightarrow> granularity \<Rightarrow> error + segmenter) option"

record seg_state =
  wordSegmenter :: "segmenter option"
  graphemeSegmenter :: "segmenter option"

definition seg_state0 :: seg_state where
  "seg_state0 = \<lparr>wordSegmenter = None, graphemeSegmenter = None\<rparr>"

text \<open>The first block of \<open>segment\<close>: construct both segmenters unless both are there.\<close>

definition ensure_segmenters ::
  "intl \<Rightarrow> seg_state \<Rightarrow> jsstring option \<Rightarrow> error + (segmenter \<times> segmenter \<times> seg_state)" where
  "ensure_segmenters Intl st locale =
     (case (wordSegmenter st, graphemeSegmenter st) of
        (Some w, Some g) \<Rightarrow> Inr (w, g, st)
      | _ \<Rightarrow>
        (case Intl of
           None \<Rightarrow> Inl SegmenterMissing
         | Some mk \<Rightarrow>
           (case mk locale GWord of
              Inl e \<Rightarrow> Inl e
            | Inr w \<Rightarrow>
              (case mk locale GGrapheme of
                 Inl e \<Rightarrow> Inl e
               | Inr g \<Rightarrow>
                 Inr (w, g, \<lparr>wordSegmenter = Some w, graphemeSegmenter = Some g\<rparr>)))))"

text \<open>
  The \<open>while (i < segmented.length)\<close> loop of the word branch. \<open>output.pop()\<close> on an empty
  array is \<open>undefined\<close>, which the template literal prints as \<open>undefined\<close>.
\<close>

function merge_nbsp :: "jsstring list \<Rightarrow> nat \<Rightarrow> jsstring list \<Rightarrow> jsstring list" where
  "merge_nbsp segmented i output =
     (if i < length segmented then
        (let s = segmented ! i in
         if s = nbsp then
           (let previousWord =
                  (if i = 0 then [] else if output = [] then undefined_str else last output);
                output1 = (if i = 0 then output else butlast output);
                nextWord = (if i = length segmented - 1 then [] else segmented ! (i + 1))
            in merge_nbsp segmented (i + 2) (output1 @ [previousWord @ nbsp @ nextWord]))
         else merge_nbsp segmented (i + 1) (output @ [s]))
      else output)"
  by pat_completeness auto
termination
  by (relation "measure (\<lambda>(segmented, i, output). length segmented - i)") auto

declare merge_nbsp.simps [simp del]

definition segment ::
  "intl \<Rightarrow> seg_state \<Rightarrow> jsstring \<Rightarrow> granularity \<Rightarrow> jsstring option
     \<Rightarrow> error + (jsstring list \<times> seg_state)" where
  "segment Intl st content granularity locale =
     (case ensure_segmenters Intl st locale of
        Inl e \<Rightarrow> Inl e
      | Inr (w, g, st') \<Rightarrow>
        if granularity = GGrapheme then Inr (g content, st')
        else Inr (merge_nbsp (w content) 0 [], st'))"

text \<open>
  What ECMA-402 promises of a segmenter: its segments are non-empty and cover the string in
  order. It is a hypothesis on the platform, stated for every segmenter the state holds or
  the constructor can return.
\<close>

definition lossless :: "segmenter \<Rightarrow> bool" where
  "lossless seg \<longleftrightarrow> (\<forall>s. concat (seg s) = s \<and> [] \<notin> set (seg s))"

definition segmenters_lossless :: "intl \<Rightarrow> seg_state \<Rightarrow> bool" where
  "segmenters_lossless Intl st \<longleftrightarrow>
     (\<forall>w. wordSegmenter st = Some w \<longrightarrow> lossless w) \<and>
     (\<forall>g. graphemeSegmenter st = Some g \<longrightarrow> lossless g) \<and>
     (\<forall>mk locale gr seg. Intl = Some mk \<longrightarrow> mk locale gr = Inr seg \<longrightarrow> lossless seg)"

text \<open>The segmenters are there, or can be constructed for this locale.\<close>

definition segmenters_available :: "intl \<Rightarrow> seg_state \<Rightarrow> jsstring option \<Rightarrow> bool" where
  "segmenters_available Intl st locale \<longleftrightarrow>
     (wordSegmenter st \<noteq> None \<and> graphemeSegmenter st \<noteq> None) \<or>
     (case Intl of
        None \<Rightarrow> False
      | Some mk \<Rightarrow> isl (mk locale GWord) = False \<and> isl (mk locale GGrapheme) = False)"

text \<open>
  The class \<open>\\w\<close> of a regular expression without flags: the ASCII letters and digits and
  the underscore.
\<close>

definition is_word_char :: "16 word \<Rightarrow> bool" where
  "is_word_char c \<longleftrightarrow>
     (0x30 \<le> c \<and> c \<le> 0x39) \<or> (0x41 \<le> c \<and> c \<le> 0x5A) \<or> c = 0x5F \<or> (0x61 \<le> c \<and> c \<le> 0x7A)"

text \<open>
  Concrete segmenters for closed instances: one splits a string into code points (a
  surrogate pair stays together), the other into maximal runs of word characters, every
  other code unit standing alone.
\<close>

fun code_points :: segmenter where
  "code_points (h # l # r) =
     (if 0xD800 \<le> h \<and> h \<le> 0xDBFF \<and> 0xDC00 \<le> l \<and> l \<le> 0xDFFF
      then [h, l] # code_points r else [h] # code_points (l # r))"
| "code_points [c] = [[c]]"
| "code_points [] = []"

function word_runs :: segmenter where
  "word_runs [] = []"
| "word_runs (c # cs) =
     (if is_word_char c
      then (c # takeWhile is_word_char cs) # word_runs (dropWhile is_word_char cs)
      else [c] # word_runs cs)"
  by pat_completeness auto
termination
  by (relation "measure length") (auto simp: length_dropWhile_le less_Suc_eq_le)

definition sample_Intl :: intl where
  "sample_Intl = Some (\<lambda>locale gr. Inr (if gr = GWord then word_runs else code_points))"

section \<open>The bounded cache: \<open>createLRU\<close>\<close>

text \<open>
  The closure's \<open>store\<close> is a JavaScript \<open>Map\<close>: its entries are kept in insertion order,
  \<open>Map.set\<close> on a key that is there overwrites the value where the entry stands, and a new
  key goes to the end. The store is the list of its entries, oldest first; the three
  closures take it and return it. \<open>maxn\<close> is the capacity \<open>max\<close> given to \<open>createLRU\<close>, a
  natural number.
\<close>

type_synonym 'v store = "(jsstring \<times> 'v) list"

definition keys :: "'v store \<Rightarrow> jsstring list" where
  "keys store = map fst store"

definition map_delete :: "jsstring \<Rightarrow> 'v store \<Rightarrow> 'v store" where
  "map_delete key store = filter (\<lambda>e. fst e \<noteq> key) store"

definition map_set :: "jsstring \<Rightarrow> 'v \<Rightarrow> 'v store \<Rightarrow> 'v store" where
  "map_set key v store =
     (if key \<in> set (keys store)
      then map (\<lambda>e. if fst e = key then (key, v) else e) store
      else store @ [(key, v)])"

text \<open>\<open>store.keys().next().value\<close> is \<open>undefined\<close> on an empty map, and deleting it does nothing.\<close>

definition lru_set :: "nat \<Rightarrow> jsstring \<Rightarrow> 'v \<Rightarrow> 'v store \<Rightarrow> 'v store" where
  "lru_set maxn key v store =
     (let store1 =
        (if length store \<ge> maxn then
           (case store of [] \<Rightarrow> store | (keyToDelete, _) # _ \<Rightarrow> map_delete keyToDelete store)
         else store)
      in map_set key v store1)"

definition lru_get :: "jsstring \<Rightarrow> 'v store \<Rightarrow> 'v option \<times> 'v store" where
  "lru_get key store =
     (case map_of store key of
        None \<Rightarrow> (None, store)
      | Some entry \<Rightarrow> (Some entry, map_set key entry (map_delete key store)))"

definition lru_clear :: "'v store \<Rightarrow> 'v store" where
  "lru_clear store = []"

datatype 'v lru_op = Set jsstring 'v | Get jsstring | Clear

fun lru_apply :: "nat \<Rightarrow> 'v store \<Rightarrow> 'v lru_op \<Rightarrow> 'v store" where
  "lru_apply maxn store (Set key v) = lru_set maxn key v store"
| "lru_apply maxn store (Get key) = snd (lru_get key store)"
| "lru_apply maxn store Clear = lru_clear store"

text \<open>The store after a sequence of calls on a fresh cache.\<close>

definition lru_run :: "nat \<Rightarrow> 'v lru_op list \<Rightarrow> 'v store" where
  "lru_run maxn ops = foldl (lru_apply maxn) [] ops"

text \<open>The invariant of the store, and the calls that insert a list of entries in order.\<close>

definition lru_inv :: "nat \<Rightarrow> 'v store \<Rightarrow> bool" where
  "lru_inv maxn st \<longleftrightarrow> length st \<le> maxn \<and> distinct (keys st)"

definition sets :: "'v store \<Rightarrow> 'v lru_op list" where
  "sets kvs = map (\<lambda>e. Set (fst e) (snd e)) kvs"

section \<open>String primitives of the line-break and highlight code\<close>

text \<open>
  \<open>String.prototype.indexOf(pat, from)\<close>: the start is clamped to the length, an empty
  pattern is found at once, and \<open>None\<close> stands for the result \<open>-1\<close>. \<open>find_at pat s i\<close> searches the
  suffix \<open>s\<close> that starts at position \<open>i\<close>.
\<close>

fun find_at :: "jsstring \<Rightarrow> jsstring \<Rightarrow> nat \<Rightarrow> nat option" where
  "find_at pat [] i = (if pat = [] then Some i else None)"
| "find_at pat (c # cs) i = (if prefix pat (c # cs) then Some i else find_at pat cs (Suc i))"

definition js_indexOf :: "jsstring \<Rightarrow> jsstring \<Rightarrow> nat \<Rightarrow> nat option" where
  "js_indexOf s pat from = (let k = min from (length s) in find_at pat (drop k s) k)"

text \<open>The number that \<open>indexOf\<close> returns, for the arithmetic done on it.\<close>

definition index_num :: "nat option \<Rightarrow> int" where
  "index_num r = (case r of None \<Rightarrow> - 1 | Some i \<Rightarrow> int i)"

text \<open>\<open>slice\<close> and \<open>substring\<close> on non-negative integers; \<open>substring\<close> swaps its arguments.\<close>

definition js_slice :: "jsstring \<Rightarrow> nat \<Rightarrow> nat \<Rightarrow> jsstring" where
  "js_slice s a b = take (b - a) (drop a s)"

definition js_substring :: "jsstring \<Rightarrow> nat \<Rightarrow> nat \<Rightarrow> jsstring" where
  "js_substring s a b = (if a \<le> b then take (b - a) (drop a s) else take (a - b) (drop b s))"

text \<open>\<open>trim\<close> removes white space and line terminators at both ends.\<close>

definition is_js_space :: "16 word \<Rightarrow> bool" where
  "is_js_space c \<longleftrightarrow>
     c \<in> {0x09, 0x0A, 0x0B, 0x0C, 0x0D, 0x20, 0xA0, 0x1680, 0x2028, 0x2029, 0x202F, 0x205F,
          0x3000, 0xFEFF} \<or> (0x2000 \<le> c \<and> c \<le> 0x200A)"

definition js_trim :: "jsstring \<Rightarrow> jsstring" where
  "js_trim s = rev (dropWhile is_js_space (rev (dropWhile is_js_space s)))"

text \<open>
  \<open>s.replace(/pat/g, '')\<close> for a literal pattern: scan from the left, drop each match and
  go on behind it.
\<close>

function remove_all :: "jsstring \<Rightarrow> jsstring \<Rightarrow> jsstring" where
  "remove_all pat [] = []"
| "remove_all pat (c # cs) =
     (if pat \<noteq> [] \<and> prefix pat (c # cs) then remove_all pat (drop (length pat) (c # cs))
      else c # remove_all pat cs)"
  by pat_completeness auto
termination
  by (relation "measure (\<lambda>(pat, s). length s)") auto

text \<open>
  \<open>word.match(/(\\w+)(\\W*)/)\<close>: the first run of word characters of the token and the run
  of other characters behind it; \<open>None\<close> where the token has no word character.
\<close>

definition match_word :: "jsstring \<Rightarrow> (jsstring \<times> jsstring) option" where
  "match_word word =
     (case dropWhile (\<lambda>c. \<not> is_word_char c) word of
        [] \<Rightarrow> None
      | r \<Rightarrow> Some (takeWhile is_word_char r,
                   takeWhile (\<lambda>c. \<not> is_word_char c) (dropWhile is_word_char r)))"

text \<open>An array element that may be \<open>undefined\<close>, and what \<open>indexOf\<close> makes of it.\<close>

definition nth_opt :: "'a list \<Rightarrow> nat \<Rightarrow> 'a option" where
  "nth_opt xs i = (if i < length xs then Some (xs ! i) else None)"

definition last_opt :: "'a list \<Rightarrow> 'a option" where
  "last_opt xs = (if xs = [] then None else Some (xs ! (length xs - 1)))"

definition to_search_string :: "jsstring option \<Rightarrow> jsstring" where
  "to_search_string w = (case w of None \<Rightarrow> undefined_str | Some s \<Rightarrow> s)"

definition startTag :: jsstring where
  "startTag = str ''[s]''"

definition endTag :: jsstring where
  "endTag = str ''[e]''"

section \<open>Line-break opportunities: \<open>splitByBreakOpportunities\<close>\<close>

text \<open>
  \<open>LineBreaker\<close> comes from the package \<open>linebreak\<close>. It is a parameter: the function from a
  string to the breaks that \<open>nextBreak()\<close> returns until it returns \<open>null\<close>, each with its
  \<open>position\<close> and its \<open>required\<close> flag.
\<close>

type_synonym linebreaker = "jsstring \<Rightarrow> (nat \<times> bool) list"

record split_result =
  words :: "jsstring list"
  requiredBreaks :: "bool list"

text \<open>The \<open>while (bk)\<close> loop, over the breaks still to come; \<open>lastp\<close> is the variable \<open>last\<close>.\<close>

fun break_loop ::
  "jsstring \<Rightarrow> (nat \<times> bool) list \<Rightarrow> nat \<Rightarrow> jsstring list \<Rightarrow> bool list \<Rightarrow> split_result" where
  "break_loop contentWithoutStartEnd [] lastp ws rbs = \<lparr>words = ws, requiredBreaks = rbs\<rparr>"
| "break_loop contentWithoutStartEnd (bk # bks) lastp ws rbs =
     break_loop contentWithoutStartEnd bks (fst bk)
       (ws @ [js_slice contentWithoutStartEnd lastp (fst bk)])
       (rbs @ [if snd bk then True else False])"

definition strip_sentinels :: "jsstring \<Rightarrow> jsstring" where
  "strip_sentinels content = remove_all endTag (remove_all startTag content)"

definition splitByBreakOpportunities ::
  "intl \<Rightarrow> linebreaker \<Rightarrow> seg_state \<Rightarrow> jsstring \<Rightarrow> jsstring
     \<Rightarrow> error + (split_result \<times> seg_state)" where
  "splitByBreakOpportunities Intl breaker st content wordBreak =
     (if wordBreak = str ''break-all'' then
        (case segment Intl st content GGrapheme None of
           Inl e \<Rightarrow> Inl e
         | Inr (ws, st') \<Rightarrow> Inr (\<lparr>words = ws, requiredBreaks = []\<rparr>, st'))
      else if wordBreak = str ''keep-all'' then
        (case segment Intl st content GWord None of
           Inl e \<Rightarrow> Inl e
         | Inr (ws, st') \<Rightarrow> Inr (\<lparr>words = ws, requiredBreaks = []\<rparr>, st'))
      else
        (let contentWithoutStartEnd = strip_sentinels content
         in Inr (break_loop contentWithoutStartEnd (breaker contentWithoutStartEnd) 0 [] [False],
                 st)))"

text \<open>
  What the theorems ask of the breaks of a string: the positions do not decrease, none lies
  beyond the end, and the last break of a non-empty string is at its end.
\<close>

definition breaks_wf :: "jsstring \<Rightarrow> (nat \<times> bool) list \<Rightarrow> bool" where
  "breaks_wf s bks \<longleftrightarrow>
     sorted (map fst bks) \<and> list_all (\<lambda>bk. fst bk \<le> length s) bks \<and>
     (if s = [] then True else bks \<noteq> [] \<and> fst (last bks) = length s)"

text \<open>
  A sample breaker for closed instances: a mandatory break behind a line feed, an allowed
  one behind a run of spaces, and a last one at the end of the string.
\<close>

fun sample_breaks :: "nat \<Rightarrow> jsstring \<Rightarrow> (nat \<times> bool) list" where
  "sample_breaks i [] = []"
| "sample_breaks i [c] = [(Suc i, c = 0x0A)]"
| "sample_breaks i (c # d # r) =
     (if c = 0x0A then [(Suc i, True)]
      else if c = 0x20 \<and> d \<noteq> 0x20 then [(Suc i, False)] else []) @
     sample_breaks (Suc i) (d # r)"

definition sample_breaker :: linebreaker where
  "sample_breaker s = sample_breaks 0 s"

text \<open>The tokens that the loop cuts: the slices between consecutive break positions.\<close>

fun slices :: "jsstring \<Rightarrow> nat \<Rightarrow> nat list \<Rightarrow> jsstring list" where
  "slices c lastp [] = []"
| "slices c lastp (p # ps) = js_slice c lastp p # slices c p ps"

text \<open>
  A run written as its pieces, text and sentinels in any order: the string the code is
  given, and the text alone.
\<close>

datatype piece = Txt jsstring | StartSentinel | EndSentinel

fun render :: "piece list \<Rightarrow> jsstring" where
  "render [] = []"
| "render (Txt u # ps) = u @ render ps"
| "render (StartSentinel # ps) = startTag @ render ps"
| "render (EndSentinel # ps) = endTag @ render ps"

fun plain_text :: "piece list \<Rightarrow> jsstring" where
  "plain_text [] = []"
| "plain_text (Txt u # ps) = u @ plain_text ps"
| "plain_text (StartSentinel # ps) = plain_text ps"
| "plain_text (EndSentinel # ps) = plain_text ps"

section \<open>Highlight tracking: \<open>addHighlights\<close>\<close>

text \<open>
  An element of \<open>highlightedSections\<close>: \<open>sec_endIdx\<close> is the index behind the end tag, and
  \<open>sec_text\<close> is the trimmed text between the two tags.
\<close>

record hsection =
  sec_startIdx :: nat
  sec_endIdx :: nat
  sec_text :: jsstring

text \<open>
  The \<open>while (true)\<close> loop that collects the sections ends because each round moves
  \<open>searchStart\<close> forward, behind an end tag that lies within the string.
\<close>

lemma find_at_bounds:
  "find_at pat s i = Some j \<Longrightarrow> i \<le> j \<and> j + length pat \<le> i + length s"
proof (induction s arbitrary: i)
  case Nil
  then show ?case by (simp split: if_splits)
next
  case (Cons c cs)
  show ?case
  proof (cases "prefix pat (c # cs)")
    case True
    with Cons.prems have "j = i" by simp
    moreover from True have "length pat \<le> length (c # cs)" by (rule prefix_length_le)
    ultimately show ?thesis by simp
  next
    case False
    with Cons.prems have "find_at pat cs (Suc i) = Some j" by simp
    from Cons.IH [OF this] show ?thesis by simp
  qed
qed

lemma js_indexOf_bounds:
  assumes "js_indexOf s pat from = Some j"
  shows "min from (length s) \<le> j \<and> j + length pat \<le> length s"
  using find_at_bounds [of pat "drop (min from (length s)) s" "min from (length s)" j] assms
  by (auto simp: js_indexOf_def Let_def)

function find_sections :: "jsstring \<Rightarrow> nat \<Rightarrow> hsection list \<Rightarrow> hsection list" where
  "find_sections originalContent searchStart highlightedSections =
     (case js_indexOf originalContent startTag searchStart of
        None \<Rightarrow> highlightedSections
      | Some startIdx \<Rightarrow>
        (case js_indexOf originalContent endTag startIdx of
           None \<Rightarrow> highlightedSections
         | Some endIdx \<Rightarrow>
           (let highlightedText =
                  js_trim (js_substring originalContent (startIdx + length startTag) endIdx)
            in find_sections originalContent (endIdx + length endTag)
                 (highlightedSections @
                  [\<lparr>sec_startIdx = startIdx, sec_endIdx = endIdx + length endTag,
                    sec_text = highlightedText\<rparr>]))))"
  by pat_completeness auto
termination
proof (relation "measure (\<lambda>(originalContent, searchStart, highlightedSections).
    length originalContent + 1 - searchStart)", goal_cases)
  case 1
  show ?case by simp
next
  case (2 originalContent searchStart highlightedSections startIdx endIdx highlightedText)
  from js_indexOf_bounds [OF 2(1)] js_indexOf_bounds [OF 2(2)]
  show ?case by (auto simp: endTag_def str_def)
qed

declare find_sections.simps [simp del]

text \<open>
  The two tests of the inner loop, on the words \<open>highlightWords\<close> of the section's text: the
  token starts where the first of them is found, or it ends where the last of them ends
  (with and without the token's trailing white space). \<open>indexOf\<close> answers \<open>-1\<close> where it
  finds nothing, and the sums are taken in the integers.
\<close>

definition start_aligned :: "jsstring \<Rightarrow> nat \<Rightarrow> jsstring list \<Rightarrow> nat \<Rightarrow> bool" where
  "start_aligned originalContent highlightStart highlightWords wordStartIndex \<longleftrightarrow>
     (let highlightWordStart =
            index_num (js_indexOf originalContent (to_search_string (nth_opt highlightWords 0))
                         highlightStart)
      in int wordStartIndex = highlightWordStart)"

definition end_aligned ::
  "jsstring \<Rightarrow> nat \<Rightarrow> jsstring \<Rightarrow> jsstring \<Rightarrow> jsstring \<Rightarrow> nat \<Rightarrow> bool" where
  "end_aligned originalContent highlightStart lastWord word coreWord wordStartIndex \<longleftrightarrow>
     (let highlightWordEnd = index_num (js_indexOf originalContent lastWord highlightStart)
      in int wordStartIndex + int (length coreWord) = highlightWordEnd + int (length lastWord) \<or>
         int wordStartIndex + int (length (js_trim word)) =
           highlightWordEnd + int (length lastWord))"

text \<open>
  The loop \<open>for (const section of highlightedSections)\<close>: \<open>None\<close> where no section holds
  the token (\<open>isHighlighted\<close> stays false), otherwise the token to push. Reading \<open>.length\<close>
  of the last highlight word throws a \<open>TypeError\<close> where there is none.
\<close>

fun mark_sections ::
  "intl \<Rightarrow> linebreaker \<Rightarrow> jsstring \<Rightarrow> jsstring \<Rightarrow> jsstring \<Rightarrow> jsstring \<Rightarrow> jsstring \<Rightarrow> nat
     \<Rightarrow> seg_state \<Rightarrow> hsection list \<Rightarrow> error + (jsstring option \<times> seg_state)" where
  "mark_sections Intl breaker originalContent wordBreak word coreWord punctuation wordStartIndex
     st [] = Inr (None, st)"
| "mark_sections Intl breaker originalContent wordBreak word coreWord punctuation wordStartIndex
     st (section # rest) =
     (let highlightStart = sec_startIdx section + length startTag;
          highlightEnd = int (sec_endIdx section) - int (length endTag)
      in if wordStartIndex \<ge> highlightStart \<and> int wordStartIndex < highlightEnd then
           (case splitByBreakOpportunities Intl breaker st (sec_text section) wordBreak of
              Inl e \<Rightarrow> Inl e
            | Inr (r, st') \<Rightarrow>
              (let highlightWords = words r
               in if start_aligned originalContent highlightStart highlightWords wordStartIndex
                  then Inr (Some (startTag @ coreWord @ punctuation), st')
                  else
                    (case last_opt highlightWords of
                       None \<Rightarrow> Inl TypeError
                     | Some lastWord \<Rightarrow>
                       if end_aligned originalContent highlightStart lastWord word coreWord
                            wordStartIndex
                       then Inr (Some (coreWord @ endTag @ punctuation), st')
                       else Inr (Some (coreWord @ punctuation), st'))))
         else mark_sections Intl breaker originalContent wordBreak word coreWord punctuation
                wordStartIndex st rest)"

text \<open>
  One round of \<open>for (const word of words)\<close>, on the state \<open>(result, currentIndex)\<close> and the
  segmenter state.
\<close>

definition highlight_word ::
  "intl \<Rightarrow> linebreaker \<Rightarrow> jsstring \<Rightarrow> jsstring \<Rightarrow> hsection list
     \<Rightarrow> jsstring list \<times> nat \<times> seg_state \<Rightarrow> jsstring
     \<Rightarrow> error + (jsstring list \<times> nat \<times> seg_state)" where
  "highlight_word Intl breaker originalContent wordBreak highlightedSections s word =
     (case s of (result, currentIndex, st) \<Rightarrow>
      (case match_word word of
         None \<Rightarrow> Inr (result @ [word], currentIndex, st)
       | Some (coreWord, punctuation) \<Rightarrow>
         (case js_indexOf originalContent coreWord currentIndex of
            None \<Rightarrow> Inr (result @ [word], currentIndex + length word, st)
          | Some wordStartIndex \<Rightarrow>
            (case mark_sections Intl breaker originalContent wordBreak word coreWord punctuation
                    wordStartIndex st highlightedSections of
               Inl e \<Rightarrow> Inl e
             | Inr (marked, st') \<Rightarrow>
               Inr (result @ [case marked of None \<Rightarrow> word | Some w \<Rightarrow> w],
                    wordStartIndex + length coreWord, st')))))"

fun highlight_loop ::
  "intl \<Rightarrow> linebreaker \<Rightarrow> jsstring \<Rightarrow> jsstring \<Rightarrow> hsection list
     \<Rightarrow> jsstring list \<times> nat \<times> seg_state \<Rightarrow> jsstring list
     \<Rightarrow> error + (jsstring list \<times> nat \<times> seg_state)" where
  "highlight_loop Intl breaker originalContent wordBreak highlightedSections s [] = Inr s"
| "highlight_loop Intl breaker originalContent wordBreak highlightedSections s (word # ws) =
     (case highlight_word Intl breaker originalContent wordBreak highlightedSections s word of
        Inl e \<Rightarrow> Inl e
      | Inr s' \<Rightarrow>
        highlight_loop Intl breaker originalContent wordBreak highlightedSections s' ws)"

definition addHighlights ::
  "intl \<Rightarrow> linebreaker \<Rightarrow> seg_state \<Rightarrow> jsstring \<Rightarrow> jsstring list \<Rightarrow> jsstring
     \<Rightarrow> error + (jsstring list \<times> seg_state)" where
  "addHighlights Intl breaker st originalContent ws wordBreak =
     (let highlightedSections = find_sections originalContent 0 []
      in case highlight_loop Intl breaker originalContent wordBreak highlightedSections
                ([], 0, st) ws of
           Inl e \<Rightarrow> Inl e
         | Inr (result, currentIndex, st') \<Rightarrow> Inr (result, st'))"

text \<open>The test \<open>wordStartIndex >= highlightStart && wordStartIndex < highlightEnd\<close> of a section.\<close>

definition in_section :: "hsection \<Rightarrow> nat \<Rightarrow> bool" where
  "in_section section wordStartIndex \<longleftrightarrow>
     wordStartIndex \<ge> sec_startIdx section + length startTag \<and>
     int wordStartIndex < int (sec_endIdx section) - int (length endTag)"

section \<open>Lengths and angles: \<open>lengthToNumber\<close> and \<open>calcDegree\<close>\<close>

text \<open>
  JavaScript numbers are taken as real numbers: the arithmetic is exact, and \<open>NaN\<close> and the
  infinities are left out. The theorems below are about which formula is applied to which
  input, not about rounding.

  The class \<open>CssDimension\<close> of \<open>vendor/parse-css-dimension\<close> is a parameter: the function from
  a string to the parsed object with its \<open>type\<close>, \<open>unit\<close> and \<open>value\<close>, or to the exception the
  constructor throws. The test \<open>length === String(+length)\<close> is a parameter too,
  \<open>numeric_string\<close>: it gives the number \<open>+length\<close> where the string is the text that
  \<open>String\<close> prints for it. Of \<open>inheritedStyle\<close> the two viewport entries are kept, taken to
  be there and to be numbers.
\<close>

datatype js_value = Num real | Str jsstring

record dimension =
  dim_type :: jsstring
  dim_unit :: jsstring
  dim_value :: real

type_synonym css_parser = "jsstring \<Rightarrow> error + dimension"

record inherited_style =
  viewportWidth :: real
  viewportHeight :: real

text \<open>
  \<open>~~x\<close> is \<open>ToInt32\<close>: the fraction is cut off towards zero and the integer is wrapped into
  the signed 32-bit range.
\<close>

definition js_to_int32 :: "real \<Rightarrow> real" where
  "js_to_int32 x =
     (let t = (if x \<ge> 0 then \<lfloor>x\<rfloor> else \<lceil>x\<rceil>);
          m = t mod 2 ^ 32
      in real_of_int (if m \<ge> 2 ^ 31 then m - 2 ^ 32 else m))"

text \<open>\<open>calcDegree\<close> constructs the dimension outside any \<open>try\<close>; the \<open>switch\<close> has no default.\<close>

definition calcDegree :: "css_parser \<Rightarrow> jsstring \<Rightarrow> error + real option" where
  "calcDegree CssDimension deg =
     (case CssDimension deg of
        Inl e \<Rightarrow> Inl e
      | Inr parsed \<Rightarrow>
        Inr (if dim_unit parsed = str ''deg'' then Some (dim_value parsed)
             else if dim_unit parsed = str ''rad'' then Some ((dim_value parsed * 180) / pi)
             else if dim_unit parsed = str ''turn'' then Some (dim_value parsed * 360)
             else if dim_unit parsed = str ''grad'' then Some (0.9 * dim_value parsed)
             else None))"

text \<open>The test \<open>/[ /\\(,]/\<close>: a space, a slash, an opening parenthesis or a comma.\<close>

definition not_length_syntax :: "jsstring \<Rightarrow> bool" where
  "not_length_syntax s \<longleftrightarrow> (\<exists>c \<in> set s. c = 0x20 \<or> c = 0x2F \<or> c = 0x28 \<or> c = 0x2C)"

text \<open>The body of the \<open>try\<close> block, and the function with its \<open>catch\<close>.\<close>

definition lengthToNumber_try ::
  "css_parser \<Rightarrow> (jsstring \<Rightarrow> real option) \<Rightarrow> jsstring \<Rightarrow> real \<Rightarrow> real \<Rightarrow> inherited_style \<Rightarrow> bool
     \<Rightarrow> error + real option" where
  "lengthToNumber_try CssDimension numeric_string len baseFontSize baseLength inheritedStyle
     percentage =
     (let length = js_trim len
      in if not_length_syntax length then Inr None
         else
           (case numeric_string length of
              Some n \<Rightarrow> Inr (Some n)
            | None \<Rightarrow>
              (case CssDimension length of
                 Inl e \<Rightarrow> Inl e
               | Inr parsed \<Rightarrow>
                 if dim_type parsed = str ''length'' then
                   (if dim_unit parsed = str ''em'' then Inr (Some (dim_value parsed * baseFontSize))
                    else if dim_unit parsed = str ''rem'' then Inr (Some (dim_value parsed * 16))
                    else if dim_unit parsed = str ''vw'' then
                      Inr (Some (js_to_int32
                        ((dim_value parsed * viewportWidth inheritedStyle) / 100)))
                    else if dim_unit parsed = str ''vh'' then
                      Inr (Some (js_to_int32
                        ((dim_value parsed * viewportHeight inheritedStyle) / 100)))
                    else Inr (Some (dim_value parsed)))
                 else if dim_type parsed = str ''angle'' then calcDegree CssDimension length
                 else if dim_type parsed = str ''percentage'' then
                   (if percentage then Inr (Some ((dim_value parsed / 100) * baseLength))
                    else Inr None)
                 else Inr None)))"

definition lengthToNumber ::
  "css_parser \<Rightarrow> (jsstring \<Rightarrow> real option) \<Rightarrow> js_value \<Rightarrow> real \<Rightarrow> real \<Rightarrow> inherited_style \<Rightarrow> bool
     \<Rightarrow> error + real option" where
  "lengthToNumber CssDimension numeric_string len baseFontSize baseLength inheritedStyle
     percentage =
     (case len of
        Num n \<Rightarrow> Inr (Some n)
      | Str s \<Rightarrow>
        (case lengthToNumber_try CssDimension numeric_string s baseFontSize baseLength
                inheritedStyle percentage of
           Inl e \<Rightarrow> Inr None
         | Inr r \<Rightarrow> Inr r))"

text \<open>
  A sample of the two parameters for closed instances: \<open>sample_numeric_string\<close> accepts the
  decimal integers without leading zeros, \<open>sample_CssDimension\<close> reads a sign, digits, a
  fraction and one of a few units, and fails on anything else.
\<close>

definition is_digit :: "16 word \<Rightarrow> bool" where
  "is_digit c \<longleftrightarrow> 0x30 \<le> c \<and> c \<le> 0x39"

definition digits_value :: "jsstring \<Rightarrow> nat" where
  "digits_value ds = foldl (\<lambda>a c. 10 * a + unat (c - 0x30)) 0 ds"

definition sample_numeric_string :: "jsstring \<Rightarrow> real option" where
  "sample_numeric_string s =
     (let neg = (s \<noteq> [] \<and> hd s = 0x2D);
          ds = (if neg then tl s else s)
      in if ds \<noteq> [] \<and> list_all is_digit ds \<and> (hd ds \<noteq> 0x30 \<or> (ds = [0x30] \<and> \<not> neg))
         then Some ((if neg then - 1 else 1) * real (digits_value ds))
         else None)"

definition sample_CssDimension :: css_parser where
  "sample_CssDimension s =
     (let neg = (s \<noteq> [] \<and> hd s = 0x2D);
          s1 = (if neg then tl s else s);
          ip = takeWhile is_digit s1;
          r1 = dropWhile is_digit s1;
          dot = (r1 \<noteq> [] \<and> hd r1 = 0x2E);
          fp = (if dot then takeWhile is_digit (tl r1) else []);
          u = (if dot then dropWhile is_digit (tl r1) else r1);
          v = (if neg then - 1 else 1) *
              (real (digits_value ip) + real (digits_value fp) / 10 ^ length fp)
      in if ip = [] \<and> fp = [] then Inl ParseError
         else if u = [] then Inr \<lparr>dim_type = str ''number'', dim_unit = [], dim_value = v\<rparr>
         else if u = str ''%'' then
           Inr \<lparr>dim_type = str ''percentage'', dim_unit = u, dim_value = v\<rparr>
         else if u \<in> set (map str [''em'', ''rem'', ''px'', ''vw'', ''vh'', ''pt'', ''cm'']) then
           Inr \<lparr>dim_type = str ''length'', dim_unit = u, dim_value = v\<rparr>
         else if u \<in> set (map str [''deg'', ''rad'', ''grad'', ''turn'']) then
           Inr \<lparr>dim_type = str ''angle'', dim_unit = u, dim_value = v\<rparr>
         else Inl ParseError)"

text \<open>What the branches on the parsed dimension return, written out once.\<close>

definition resolve_dimension ::
  "dimension \<Rightarrow> real \<Rightarrow> real \<Rightarrow> inherited_style \<Rightarrow> bool \<Rightarrow> real option" where
  "resolve_dimension parsed baseFontSize baseLength inheritedStyle percentage =
     (if dim_type parsed = str ''length'' then
        Some (if dim_unit parsed = str ''em'' then dim_value parsed * baseFontSize
              else if dim_unit parsed = str ''rem'' then dim_value parsed * 16
              else if dim_unit parsed = str ''vw'' then
                js_to_int32 (dim_value parsed * viewportWidth inheritedStyle / 100)
              else if dim_unit parsed = str ''vh'' then
                js_to_int32 (dim_value parsed * viewportHeight inheritedStyle / 100)
              else dim_value parsed)
      else if dim_type parsed = str ''angle'' then
        (if dim_unit parsed = str ''deg'' then Some (dim_value parsed)
         else if dim_unit parsed = str ''rad'' then Some (dim_value parsed * 180 / pi)
         else if dim_unit parsed = str ''turn'' then Some (dim_value parsed * 360)
         else if dim_unit parsed = str ''grad'' then Some (0.9 * dim_value parsed)
         else None)
      else if dim_type parsed = str ''percentage'' \<and> percentage then
        Some (dim_value parsed / 100 * baseLength)
      else None)"

section \<open>Asset resolution in \<open>toSvg\<close>: grouping the missing segments\<close>

text \<open>
  The part of \<open>toSvg\<close> between the first \<open>handler.next()\<close> and \<open>Promise.all\<close>: which calls of
  \<open>loadAdditionalAsset\<close> are made for the segments the first layout pass reports. The
  detector \<open>detectLanguageCode\<close> of \<open>./language\<close> is a parameter.

  \<open>Array.from(new Set(xs))\<close> keeps the first occurrence of each element, in order.
\<close>

definition dedup :: "'a list \<Rightarrow> 'a list" where
  "dedup xs = rev (remdups (rev xs))"

text \<open>
  The object \<open>langaugeCodes\<close>, as the list of its entries in the order of
  \<open>Object.entries\<close>: a new key goes to the end, a key that is there keeps its place. (The
  codes are taken to be language tags: neither array indices, which \<open>Object.entries\<close> would
  list first, nor names that \<open>Object.prototype\<close> defines.)
\<close>

type_synonym buckets = "(jsstring \<times> jsstring list) list"

definition record_set :: "jsstring \<Rightarrow> jsstring list \<Rightarrow> buckets \<Rightarrow> buckets" where
  "record_set code segs codes =
     (if code \<in> set (map fst codes)
      then map (\<lambda>e. if fst e = code then (code, segs) else e) codes
      else codes @ [(code, segs)])"

text \<open>
  The body of \<open>segmentsMissingFont.forEach\<close>. \<open>langaugeCodes[code] || []\<close> is the array that is
  there or a new one; \<open>emoji\<close> pushes the segment, any other code appends it to element 0.
\<close>

definition bucket_step :: "(jsstring \<Rightarrow> jsstring) \<Rightarrow> buckets \<Rightarrow> jsstring \<Rightarrow> buckets" where
  "bucket_step detectLanguageCode langaugeCodes seg =
     (let code = detectLanguageCode seg;
          existing = (case map_of langaugeCodes code of None \<Rightarrow> [] | Some segs \<Rightarrow> segs)
      in if code = str ''emoji'' then record_set code (existing @ [seg]) langaugeCodes
         else record_set code
                (case existing of [] \<Rightarrow> [seg] | first # rest \<Rightarrow> (first @ seg) # rest)
                langaugeCodes)"

text \<open>\<open>Object.entries(langaugeCodes).flatMap(...)\<close>: one call for each segment of each entry.\<close>

definition loader_calls :: "buckets \<Rightarrow> (jsstring \<times> jsstring) list" where
  "loader_calls langaugeCodes =
     concat (map (\<lambda>e. map (\<lambda>seg. (fst e, seg)) (snd e)) langaugeCodes)"

text \<open>
  The calls made, in order; \<open>loadAdditionalAsset\<close> says whether the option is given. The
  segments are joined and cut into graphemes by \<open>segment\<close>, which may throw.
\<close>

definition asset_requests ::
  "intl \<Rightarrow> seg_state \<Rightarrow> (jsstring \<Rightarrow> jsstring) \<Rightarrow> bool \<Rightarrow> jsstring list
     \<Rightarrow> error + ((jsstring \<times> jsstring) list \<times> seg_state)" where
  "asset_requests Intl st detectLanguageCode loadAdditionalAsset segmentsMissingFont =
     (if loadAdditionalAsset \<and> segmentsMissingFont \<noteq> [] then
        (case segment Intl st (concat segmentsMissingFont) GGrapheme None of
           Inl e \<Rightarrow> Inl e
         | Inr (segs, st') \<Rightarrow>
           Inr (loader_calls (foldl (bucket_step detectLanguageCode) [] (dedup segs)), st'))
      else Inr ([], st))"

text \<open>
  The grouping in the words of the specification: one bucket for each code, in the order in
  which the codes are first met; the bucket of \<open>emoji\<close> holds its graphemes one by one, the
  bucket of any other code holds one string, its graphemes concatenated in the order met.
\<close>

definition bucket_of :: "(jsstring \<Rightarrow> jsstring) \<Rightarrow> jsstring list \<Rightarrow> jsstring \<Rightarrow> jsstring list" where
  "bucket_of detect graphemes code =
     (if code = str ''emoji'' then filter (\<lambda>g. detect g = code) graphemes
      else [concat (filter (\<lambda>g. detect g = code) graphemes)])"

definition buckets_spec :: "(jsstring \<Rightarrow> jsstring) \<Rightarrow> jsstring list \<Rightarrow> buckets" where
  "buckets_spec detect graphemes =
     map (\<lambda>code. (code, bucket_of detect graphemes code)) (dedup (map detect graphemes))"

chapter \<open>Properties\<close>

section \<open>Properties of \<open>segment\<close>\<close>

lemma merge_nbsp_concat:
  "(0 < i \<longrightarrow> out \<noteq> []) \<Longrightarrow>
   concat (merge_nbsp segmented i out) = concat out @ concat (drop i segmented)"
proof (induction segmented i out rule: merge_nbsp.induct)
  case (1 segmented i out)
  show ?case
  proof (cases "i < length segmented")
    case False
    then show ?thesis by (simp add: merge_nbsp.simps [of segmented i out])
  next
    case inb: True
    then have dropi: "drop i segmented = segmented ! i # drop (Suc i) segmented"
      by (simp add: Cons_nth_drop_Suc)
    show ?thesis
    proof (cases "segmented ! i = nbsp")
      case False
      with inb 1 dropi show ?thesis
        by (simp add: merge_nbsp.simps [of segmented i out])
    next
      case isn: True
      define previousWord where
        "previousWord = (if i = 0 then [] else if out = [] then undefined_str else last out)"
      define out1 where "out1 = (if i = 0 then out else butlast out)"
      define nextWord where
        "nextWord = (if i = length segmented - 1 then [] else segmented ! (i + 1))"
      have step: "merge_nbsp segmented i out =
          merge_nbsp segmented (i + 2) (out1 @ [previousWord @ nbsp @ nextWord])"
        using inb isn
        by (simp add: merge_nbsp.simps [of segmented i out] previousWord_def out1_def
            nextWord_def Let_def)
      have IH: "concat (merge_nbsp segmented (i + 2) (out1 @ [previousWord @ nbsp @ nextWord]))
          = concat (out1 @ [previousWord @ nbsp @ nextWord]) @ concat (drop (i + 2) segmented)"
        using "1.IH"(1) [OF inb refl isn previousWord_def out1_def nextWord_def] by simp
      have prev: "concat out1 @ previousWord = concat out"
      proof (cases "i = 0")
        case True
        then show ?thesis by (simp add: out1_def previousWord_def)
      next
        case False
        with "1.prems" have ne: "out \<noteq> []" by simp
        then have "out = butlast out @ [last out]" by simp
        then have "concat out = concat (butlast out) @ last out"
          by (metis concat.simps(1) concat.simps(2) concat_append append_Nil2)
        with False ne show ?thesis by (simp add: out1_def previousWord_def)
      qed
      have nxt: "nextWord @ concat (drop (i + 2) segmented) = concat (drop (Suc i) segmented)"
      proof (cases "i = length segmented - 1")
        case True
        with inb show ?thesis by (simp add: nextWord_def)
      next
        case False
        with inb have "Suc i < length segmented" by arith
        then have "drop (Suc i) segmented = segmented ! (Suc i) # drop (Suc (Suc i)) segmented"
          by (simp add: Cons_nth_drop_Suc)
        with False show ?thesis by (simp add: nextWord_def)
      qed
      have "concat (merge_nbsp segmented i out)
          = (concat out1 @ previousWord) @ nbsp @ (nextWord @ concat (drop (i + 2) segmented))"
        using step IH by simp
      also have "\<dots> = concat out @ nbsp @ concat (drop (Suc i) segmented)"
        by (simp only: prev nxt)
      finally show ?thesis using dropi isn by simp
    qed
  qed
qed

lemma merge_nbsp_lossless: "concat (merge_nbsp segmented 0 []) = concat segmented"
  using merge_nbsp_concat [of 0 "[]" segmented] by simp

lemma merge_nbsp_Nil: "merge_nbsp [] 0 [] = []"
  by (simp add: merge_nbsp.simps [of "[]" 0 "[]"])

lemma lossless_Nil: "lossless seg \<Longrightarrow> seg [] = []"
proof -
  assume l: "lossless seg"
  then have "concat (seg []) = []" and "[] \<notin> set (seg [])"
    by (simp_all add: lossless_def)
  then show ?thesis by (cases "seg []") auto
qed

lemma ensure_segmenters_lossless:
  assumes "segmenters_lossless Intl st"
    and "ensure_segmenters Intl st locale = Inr (w, g, st')"
  shows "lossless w \<and> lossless g"
  using assms
  by (auto simp: ensure_segmenters_def segmenters_lossless_def
      split: option.splits sum.splits)

lemma ensure_segmenters_available:
  assumes "segmenters_available Intl st locale"
  shows "\<exists>w g st'. ensure_segmenters Intl st locale = Inr (w, g, st')"
  using assms
  by (auto simp: ensure_segmenters_def segmenters_available_def
      split: option.splits sum.splits)

lemma code_points_concat: "concat (code_points s) = s"
  by (induction s rule: code_points.induct) auto

lemma code_points_nonempty: "[] \<notin> set (code_points s)"
  by (induction s rule: code_points.induct) auto

lemma word_runs_concat: "concat (word_runs s) = s"
  by (induction s rule: word_runs.induct) auto

lemma word_runs_nonempty: "[] \<notin> set (word_runs s)"
  by (induction s rule: word_runs.induct) auto

lemma lossless_code_points: "lossless code_points"
  by (simp add: lossless_def code_points_concat code_points_nonempty)

lemma lossless_word_runs: "lossless word_runs"
  by (simp add: lossless_def word_runs_concat word_runs_nonempty)

lemma sample_Intl_lossless: "segmenters_lossless sample_Intl seg_state0"
  by (auto simp: segmenters_lossless_def sample_Intl_def seg_state0_def
      lossless_code_points lossless_word_runs)

lemma sample_Intl_available: "segmenters_available sample_Intl seg_state0 locale"
  by (simp add: segmenters_available_def sample_Intl_def)

lemma ensure_segmenters_state:
  assumes "ensure_segmenters Intl st locale = Inr (w, g, st')"
  shows "wordSegmenter st' = Some w \<and> graphemeSegmenter st' = Some g"
  using assms
  by (auto simp: ensure_segmenters_def split: option.splits sum.splits)

lemma merge_nbsp_between: "a \<noteq> nbsp \<Longrightarrow> merge_nbsp [a, nbsp, b] 0 [] = [a @ nbsp @ b]"
  by (simp add: merge_nbsp.simps)

lemma merge_nbsp_first: "merge_nbsp [nbsp, b] 0 [] = [nbsp @ b]"
  by (simp add: merge_nbsp.simps)

lemma merge_nbsp_last: "a \<noteq> nbsp \<Longrightarrow> merge_nbsp [a, nbsp] 0 [] = [a @ nbsp]"
  by (simp add: merge_nbsp.simps)

text \<open>
  Claim C1. Whatever the input string, the granularity and the locale, the tokens that
  \<open>segment\<close> returns concatenate, in order, to the input, and the empty input gives the
  empty sequence; this includes the word branch with its merge of a lone non-breaking
  space into its neighbours. \<open>segment\<close> does return whenever the segmenters are there or
  can be constructed. In the word branch a non-breaking space between two segments gives one
  token of the three, and at the start or the end of the segments the missing neighbour
  adds nothing. The segmenters of the platform are assumed to partition their input into
  non-empty segments.
\<close>

theorem segment_lossless_partition:
  assumes "segmenters_lossless Intl st"
  shows "(segment Intl st content granularity locale = Inr (tokens, st') \<longrightarrow>
            concat tokens = content \<and> (content = [] \<longrightarrow> tokens = [])) \<and>
         (segmenters_available Intl st locale \<longrightarrow>
            (\<exists>toks st''. segment Intl st content granularity locale = Inr (toks, st''))) \<and>
         (segment Intl st content GWord locale = Inr (tokens, st') \<longrightarrow>
          wordSegmenter st' = Some w \<longrightarrow> a \<noteq> nbsp \<longrightarrow>
            (w content = [a, nbsp, b] \<longrightarrow> tokens = [a @ nbsp @ b]) \<and>
            (w content = [nbsp, b] \<longrightarrow> tokens = [nbsp @ b]) \<and>
            (w content = [a, nbsp] \<longrightarrow> tokens = [a @ nbsp]))"
proof (intro conjI impI)
  assume r: "segment Intl st content granularity locale = Inr (tokens, st')"
  then obtain w g where e: "ensure_segmenters Intl st locale = Inr (w, g, st')"
    and t: "tokens = (if granularity = GGrapheme then g content else merge_nbsp (w content) 0 [])"
    by (auto simp: segment_def split: sum.splits if_splits)
  from ensure_segmenters_lossless [OF assms e] have lw: "lossless w" and lg: "lossless g"
    by simp_all
  show "concat tokens = content"
    using t lw lg by (simp add: merge_nbsp_lossless lossless_def)
  show "tokens = []" if "content = []"
    using t that lossless_Nil [OF lw] lossless_Nil [OF lg] by (simp add: merge_nbsp_Nil)
next
  assume "segmenters_available Intl st locale"
  from ensure_segmenters_available [OF this]
  show "\<exists>toks st''. segment Intl st content granularity locale = Inr (toks, st'')"
    by (auto simp: segment_def)
next
  assume r: "segment Intl st content GWord locale = Inr (tokens, st')"
    and w: "wordSegmenter st' = Some w" and a: "a \<noteq> nbsp"
  from r obtain w' g where e: "ensure_segmenters Intl st locale = Inr (w', g, st')"
    and t: "tokens = merge_nbsp (w' content) 0 []"
    by (auto simp: segment_def split: sum.splits)
  from ensure_segmenters_state [OF e] w have "w' = w" by simp
  with t have t': "tokens = merge_nbsp (w content) 0 []" by simp
  show "tokens = [a @ nbsp @ b]" if "w content = [a, nbsp, b]"
    using t' that a by (simp add: merge_nbsp_between)
  show "tokens = [nbsp @ b]" if "w content = [nbsp, b]"
    using t' that by (simp add: merge_nbsp_first)
  show "tokens = [a @ nbsp]" if "w content = [a, nbsp]"
    using t' that a by (simp add: merge_nbsp_last)
qed

theorem segment_lossless_partition_witness:
  "segmenters_lossless sample_Intl seg_state0 \<and>
   segmenters_available sample_Intl seg_state0 None \<and>
   segment sample_Intl seg_state0 (str ''a'' @ nbsp @ str ''b'') GWord None =
     Inr ([str ''a'' @ nbsp @ str ''b''],
          \<lparr>wordSegmenter = Some word_runs, graphemeSegmenter = Some code_points\<rparr>) \<and>
   concat [str ''a'' @ nbsp @ str ''b''] = str ''a'' @ nbsp @ str ''b'' \<and>
   str ''a'' \<noteq> nbsp \<and>
   word_runs (str ''a'' @ nbsp @ str ''b'') = [str ''a'', nbsp, str ''b'']"
proof -
  let ?st = "\<lparr>wordSegmenter = Some word_runs, graphemeSegmenter = Some code_points\<rparr>"
  have w: "word_runs (str ''a'' @ nbsp @ str ''b'') = [str ''a'', nbsp, str ''b'']"
    by (simp add: str_def nbsp_def is_word_char_def)
  have a: "str ''a'' \<noteq> nbsp"
    by (simp add: str_def nbsp_def)
  have e: "\<exists>toks. segment sample_Intl seg_state0 (str ''a'' @ nbsp @ str ''b'') GWord None =
     Inr (toks, ?st)"
    by (simp add: segment_def ensure_segmenters_def sample_Intl_def seg_state0_def)
  then obtain toks where
    r: "segment sample_Intl seg_state0 (str ''a'' @ nbsp @ str ''b'') GWord None = Inr (toks, ?st)"
    by blast
  note th = segment_lossless_partition [OF sample_Intl_lossless,
      where content = "str ''a'' @ nbsp @ str ''b''" and granularity = GWord
      and tokens = toks and st' = ?st and w = word_runs and a = "str ''a''" and b = "str ''b''"]
  from th r w a have toks: "toks = [str ''a'' @ nbsp @ str ''b'']"
    by simp
  from th r have "concat toks = str ''a'' @ nbsp @ str ''b''"
    by blast
  with r toks w a sample_Intl_lossless sample_Intl_available show ?thesis by simp
qed

section \<open>Properties of the bounded cache\<close>

lemma keys_map_delete: "keys (map_delete k st) = filter (\<lambda>x. x \<noteq> k) (keys st)"
  by (induction st) (auto simp: keys_def map_delete_def)

lemma length_map_delete_le: "length (map_delete k st) \<le> length st"
  by (simp add: map_delete_def)

lemma map_delete_hd: "distinct (keys ((k, v) # st)) \<Longrightarrow> map_delete k ((k, v) # st) = st"
  by (auto simp: map_delete_def keys_def intro!: filter_True)

lemma keys_map_set:
  "keys (map_set k v st) = (if k \<in> set (keys st) then keys st else keys st @ [k])"
  by (induction st) (auto simp: keys_def map_set_def)

lemma length_map_set:
  "length (map_set k v st) = (if k \<in> set (keys st) then length st else Suc (length st))"
  by (simp add: map_set_def)

lemma keys_tl: "keys (tl st) = tl (keys st)"
  by (simp add: keys_def map_tl)

lemma lru_set_evict:
  "distinct (keys st) \<Longrightarrow>
   lru_set maxn k v st = map_set k v (if maxn \<le> length st then tl st else st)"
  by (cases st) (auto simp: lru_set_def map_delete_hd split: prod.splits)

lemma keys_append: "keys (a @ b) = keys a @ keys b"
  by (simp add: keys_def)

lemma keys_Cons: "keys (e # st) = fst e # keys st"
  by (simp add: keys_def)

lemma keys_Nil: "keys [] = []"
  by (simp add: keys_def)

lemma distinct_refresh:
  "distinct (keys st) \<Longrightarrow> distinct (keys (map_delete k st @ [(k, v)]))"
  by (simp add: keys_append keys_map_delete keys_Cons keys_Nil)

lemma lru_inv_set:
  assumes "1 \<le> maxn" and "lru_inv maxn st"
  shows "lru_inv maxn (lru_set maxn k v st)"
proof -
  from assms have d: "distinct (keys st)" and l: "length st \<le> maxn"
    by (simp_all add: lru_inv_def)
  define st1 where "st1 = (if maxn \<le> length st then tl st else st)"
  have d1: "distinct (keys st1)"
    using d by (simp add: st1_def keys_tl distinct_tl)
  have l1: "Suc (length st1) \<le> maxn"
    using l assms(1) by (auto simp: st1_def)
  have "length (map_set k v st1) \<le> maxn"
    using l1 by (simp add: length_map_set)
  moreover have "distinct (keys (map_set k v st1))"
    using d1 by (simp add: keys_map_set)
  ultimately show ?thesis
    using lru_set_evict [OF d, of maxn k v] by (simp add: lru_inv_def st1_def)
qed

lemma map_of_keys: "map_of st k = Some v \<Longrightarrow> k \<in> set (keys st)"
  by (induction st) (auto simp: keys_def split: if_splits)

lemma map_of_None_keys: "map_of st k = None \<longleftrightarrow> k \<notin> set (keys st)"
  by (simp add: keys_def map_of_eq_None_iff)

lemma lru_get_hit:
  "map_of st k = Some v \<Longrightarrow> lru_get k st = (Some v, map_delete k st @ [(k, v)])"
  by (simp add: lru_get_def map_set_def keys_map_delete)

lemma lru_get_miss: "map_of st k = None \<Longrightarrow> lru_get k st = (None, st)"
  by (simp add: lru_get_def)

lemma length_map_delete_mem:
  "k \<in> set (keys st) \<Longrightarrow> length (map_delete k st) < length st"
  unfolding map_delete_def keys_def
  by (auto intro: length_filter_less)

lemma length_map_delete_distinct:
  assumes "distinct (keys st)" and "k \<in> set (keys st)"
  shows "length (map_delete k st) = length st - 1"
proof -
  have "length (map_delete k st) = length (keys (map_delete k st))"
    by (simp add: keys_def)
  also have "\<dots> = length (removeAll k (keys st))"
  proof -
    have "filter (\<lambda>x. x \<noteq> k) xs = removeAll k xs" for xs :: "jsstring list"
      by (induction xs) auto
    then show ?thesis by (simp add: keys_map_delete)
  qed
  also have "\<dots> = length (remove1 k (keys st))"
    using assms(1) by (simp add: distinct_remove1_removeAll)
  also have "\<dots> = length st - 1"
    using assms(2) by (simp add: length_remove1 keys_def)
  finally show ?thesis .
qed

lemma lru_inv_get:
  assumes "lru_inv maxn st"
  shows "lru_inv maxn (snd (lru_get k st))"
proof (cases "map_of st k")
  case None
  with assms show ?thesis by (simp add: lru_get_miss)
next
  case (Some v)
  from map_of_keys [OF Some] have "length (map_delete k st) < length st"
    by (rule length_map_delete_mem)
  moreover have "distinct (keys (map_delete k st @ [(k, v)]))"
    using assms by (simp add: lru_inv_def distinct_refresh)
  ultimately show ?thesis
    using assms Some by (simp add: lru_get_hit lru_inv_def)
qed

lemma lru_inv_apply: "1 \<le> maxn \<Longrightarrow> lru_inv maxn st \<Longrightarrow> lru_inv maxn (lru_apply maxn st op)"
  by (cases op) (simp_all add: lru_inv_set lru_inv_get, simp add: lru_inv_def lru_clear_def keys_def)

lemma lru_inv_foldl:
  "1 \<le> maxn \<Longrightarrow> lru_inv maxn st \<Longrightarrow> lru_inv maxn (foldl (lru_apply maxn) st ops)"
  by (induction ops arbitrary: st) (simp_all add: lru_inv_apply)

lemma lru_inv_run: "1 \<le> maxn \<Longrightarrow> lru_inv maxn (lru_run maxn ops)"
  unfolding lru_run_def by (rule lru_inv_foldl) (simp_all add: lru_inv_def keys_def)

text \<open>Filling a fresh cache with distinct keys, up to its capacity, keeps every entry.\<close>

lemma lru_run_snoc: "lru_run maxn (ops @ [op]) = lru_apply maxn (lru_run maxn ops) op"
  by (simp add: lru_run_def)

lemma lru_run_fill:
  "distinct (keys kvs) \<Longrightarrow> length kvs \<le> maxn \<Longrightarrow> lru_run maxn (sets kvs) = kvs"
proof (induction kvs rule: rev_induct)
  case Nil
  then show ?case by (simp add: lru_run_def sets_def)
next
  case (snoc e kvs)
  then have IH: "lru_run maxn (sets kvs) = kvs" and d: "distinct (keys kvs)"
    and new: "fst e \<notin> set (keys kvs)" and l: "length kvs < maxn"
    by (simp_all add: keys_def)
  have "lru_run maxn (sets (kvs @ [e])) = lru_set maxn (fst e) (snd e) kvs"
    using IH by (simp add: sets_def lru_run_def)
  also have "\<dots> = kvs @ [e]"
    using l new by (simp add: lru_set_evict [OF d] map_set_def)
  finally show ?case .
qed

lemma lru_run_overflow:
  assumes "distinct (keys kvs)" and "length kvs = Suc maxn" and "1 \<le> maxn"
  shows "lru_run maxn (sets kvs) = tl kvs"
proof -
  from assms(2) obtain kvs' e where kvs: "kvs = kvs' @ [e]"
    by (cases kvs rule: rev_cases) auto
  with assms have d: "distinct (keys kvs')" and new: "fst e \<notin> set (keys kvs')"
    and l: "length kvs' = maxn" and ne: "kvs' \<noteq> []"
    by (auto simp: keys_def)
  have "lru_run maxn (sets kvs) = lru_set maxn (fst e) (snd e) (lru_run maxn (sets kvs'))"
    by (simp add: kvs sets_def lru_run_def)
  also have "\<dots> = lru_set maxn (fst e) (snd e) kvs'"
    using d l by (simp add: lru_run_fill)
  also have "\<dots> = map_set (fst e) (snd e) (tl kvs')"
    using l by (simp add: lru_set_evict [OF d])
  also have "\<dots> = tl kvs' @ [e]"
  proof -
    have "set (keys (tl kvs')) \<subseteq> set (keys kvs')"
      by (cases kvs') (auto simp: keys_def)
    with new show ?thesis by (auto simp: map_set_def)
  qed
  also have "\<dots> = tl kvs" using ne by (simp add: kvs)
  finally show ?thesis .
qed

lemma lru_run_protect:
  assumes "distinct (keys (kvs @ [e]))" and "length kvs = maxn" and "2 \<le> maxn"
    and "map_of kvs k = Some v"
  shows "k \<in> set (keys (lru_run maxn (sets kvs @ [Get k, Set (fst e) (snd e)])))"
proof -
  from assms have d: "distinct (keys kvs)" by (simp add: keys_def)
  have fill: "lru_run maxn (sets kvs) = kvs"
    using d assms(2) by (simp add: lru_run_fill)
  define st where "st = map_delete k kvs @ [(k, v)]"
  have got: "lru_run maxn (sets kvs @ [Get k]) = st"
    using fill assms(4) by (simp add: lru_run_snoc lru_get_hit st_def)
  have kin: "k \<in> set (keys kvs)" using assms(4) by (rule map_of_keys)
  have dst: "distinct (keys st)"
    using d by (simp add: st_def distinct_refresh)
  have lst: "length st = maxn"
    using assms(2,3) length_map_delete_distinct [OF d kin] by (simp add: st_def)
  have "lru_run maxn (sets kvs @ [Get k, Set (fst e) (snd e)])
      = lru_set maxn (fst e) (snd e) st"
    using got by (simp add: lru_run_def)
  also have "\<dots> = map_set (fst e) (snd e) (tl st)"
    using lst by (simp add: lru_set_evict [OF dst])
  finally have r: "lru_run maxn (sets kvs @ [Get k, Set (fst e) (snd e)])
      = map_set (fst e) (snd e) (tl st)" .
  have "map_delete k kvs \<noteq> []"
    using lst assms(3) by (auto simp: st_def)
  then have "tl st = tl (map_delete k kvs) @ [(k, v)]"
    by (simp add: st_def)
  then have "k \<in> set (keys (tl st))"
    by (simp add: keys_append keys_Cons keys_Nil)
  then show ?thesis
    unfolding r by (simp add: keys_map_set)
qed

text \<open>
  What the cache keeps of its contract, for a capacity of at least one and every sequence
  of \<open>set\<close>, \<open>get\<close> and \<open>clear\<close> calls on a fresh cache: the store never holds more than
  \<open>max\<close> entries and its keys are distinct; \<open>set\<close> deletes the first entry of the store
  whenever the store is at capacity, and then stores the value; a key that is not in the
  store puts its entry last, and is preceded by a deletion exactly when the store is at
  capacity; a \<open>get\<close> that hits returns the value and moves the entry to the end; a \<open>get\<close>
  that misses returns \<open>undefined\<close> and leaves the store as it is; inserting \<open>max + 1\<close>
  distinct keys in order leaves exactly the entries after the first; and with a capacity of
  at least two, a key read when the cache has just been filled with \<open>max\<close> distinct keys is
  still there after the next insertion of a new key.
\<close>

lemma lru_store_contract:
  assumes "1 \<le> maxn"
  shows "length (lru_run maxn ops) \<le> maxn \<and> distinct (keys (lru_run maxn ops)) \<and>
    lru_set maxn k v (lru_run maxn ops) =
      map_set k v (if maxn \<le> length (lru_run maxn ops) then tl (lru_run maxn ops)
                   else lru_run maxn ops) \<and>
    (k \<notin> set (keys (lru_run maxn ops)) \<longrightarrow>
       lru_set maxn k v (lru_run maxn ops) =
         (if maxn \<le> length (lru_run maxn ops) then tl (lru_run maxn ops)
          else lru_run maxn ops) @ [(k, v)]) \<and>
    (k \<in> set (keys (lru_run maxn ops)) \<longrightarrow> length (lru_run maxn ops) < maxn \<longrightarrow>
       keys (lru_set maxn k v (lru_run maxn ops)) = keys (lru_run maxn ops)) \<and>
    (map_of (lru_run maxn ops) k = Some v \<longrightarrow>
       lru_get k (lru_run maxn ops) = (Some v, map_delete k (lru_run maxn ops) @ [(k, v)])) \<and>
    (map_of (lru_run maxn ops) k = None \<longrightarrow>
       lru_get k (lru_run maxn ops) = (None, lru_run maxn ops)) \<and>
    (distinct (keys kvs) \<longrightarrow> length kvs = Suc maxn \<longrightarrow>
       lru_run maxn (sets kvs) = tl kvs) \<and>
    (2 \<le> maxn \<longrightarrow> distinct (keys (kvs' @ [e])) \<longrightarrow> length kvs' = maxn \<longrightarrow>
       map_of kvs' k' = Some v' \<longrightarrow>
       k' \<in> set (keys (lru_run maxn (sets kvs' @ [Get k', Set (fst e) (snd e)]))))"
proof -
  define st where "st = lru_run maxn ops"
  from lru_inv_run [OF assms, of ops]
  have l: "length st \<le> maxn" and d: "distinct (keys st)"
    by (simp_all add: lru_inv_def st_def)
  have ev: "lru_set maxn k v st = map_set k v (if maxn \<le> length st then tl st else st)"
    by (rule lru_set_evict [OF d])
  have new: "lru_set maxn k v st = (if maxn \<le> length st then tl st else st) @ [(k, v)]"
    if "k \<notin> set (keys st)"
  proof -
    have "set (keys (tl st)) \<subseteq> set (keys st)"
      by (cases st) (auto simp: keys_Cons keys_Nil)
    with that show ?thesis unfolding ev by (auto simp: map_set_def)
  qed
  have old: "keys (lru_set maxn k v st) = keys st"
    if "k \<in> set (keys st)" and "length st < maxn"
    using that unfolding ev by (simp add: keys_map_set)
  have hit: "lru_get k st = (Some v, map_delete k st @ [(k, v)])" if "map_of st k = Some v"
    using that by (rule lru_get_hit)
  have miss: "lru_get k st = (None, st)" if "map_of st k = None"
    using that by (rule lru_get_miss)
  have over: "lru_run maxn (sets kvs) = tl kvs"
    if "distinct (keys kvs)" and "length kvs = Suc maxn"
    using that assms by (rule lru_run_overflow)
  have prot: "k' \<in> set (keys (lru_run maxn (sets kvs' @ [Get k', Set (fst e) (snd e)])))"
    if "2 \<le> maxn" and "distinct (keys (kvs' @ [e]))" and "length kvs' = maxn"
      and "map_of kvs' k' = Some v'"
    using that(2,3,1,4) by (rule lru_run_protect)
  from l d ev new old hit miss over prot show ?thesis
    unfolding st_def by blast
qed

text \<open>
  Claim C6 says that \<open>set\<close> evicts the least recently used entry exactly when the store is
  at capacity and the key is new, and that a \<open>set\<close>, like a \<open>get\<close> that hits, makes its key
  the most recent one. \<open>get\<close> deletes the key and sets it again; \<open>set\<close> has no such step for a
  key that is in the store. At capacity two, holding \<open>a\<close> and \<open>b\<close>, storing under \<open>b\<close> again
  deletes \<open>a\<close> although the key is not new and leaves one entry. At capacity three, storing
  under \<open>a\<close> again leaves \<open>a\<close> the first entry, and two insertions later it is \<open>a\<close>, set after
  \<open>b\<close>, that is deleted while \<open>b\<close> stays.
\<close>

theorem lru_set_present_key:
  "lru_run 2 [Set (str ''a'') (1::nat), Set (str ''b'') 2] = [(str ''a'', 1), (str ''b'', 2)] \<and>
   lru_run 2 [Set (str ''a'') (1::nat), Set (str ''b'') 2, Set (str ''b'') 3] = [(str ''b'', 3)] \<and>
   lru_run 3 [Set (str ''a'') (1::nat), Set (str ''b'') 2, Set (str ''a'') 9]
     = [(str ''a'', 9), (str ''b'', 2)] \<and>
   lru_run 3 [Set (str ''a'') (1::nat), Set (str ''b'') 2, Set (str ''a'') 9, Set (str ''c'') 3,
              Set (str ''d'') 4]
     = [(str ''b'', 2), (str ''c'', 3), (str ''d'', 4)]"
  by (simp add: lru_run_def lru_set_def map_set_def map_delete_def keys_def str_def)

section \<open>Properties of \<open>splitByBreakOpportunities\<close>\<close>

lemma break_loop_eq:
  "break_loop c bks lastp ws rbs =
     \<lparr>words = ws @ slices c lastp (map fst bks), requiredBreaks = rbs @ map snd bks\<rparr>"
  by (induction bks arbitrary: lastp ws rbs) simp_all

lemma js_slice_append:
  "l \<le> p \<Longrightarrow> p \<le> q \<Longrightarrow> js_slice c l p @ js_slice c p q = js_slice c l q"
proof -
  assume lp: "l \<le> p" and pq: "p \<le> q"
  have "take ((p - l) + (q - p)) (drop l c) =
      take (p - l) (drop l c) @ take (q - p) (drop (p - l) (drop l c))"
    by (rule take_add)
  with lp pq show ?thesis by (simp add: js_slice_def)
qed

lemma concat_slices:
  "sorted (lastp # ps) \<Longrightarrow> concat (slices c lastp ps) = js_slice c lastp (last (lastp # ps))"
proof (induction ps arbitrary: lastp)
  case Nil
  then show ?case by (simp add: js_slice_def)
next
  case (Cons p ps)
  then have IH: "concat (slices c p ps) = js_slice c p (last (p # ps))"
    and lp: "lastp \<le> p" and pq: "p \<le> last (p # ps)"
    by auto
  show ?case
    using js_slice_append [OF lp pq, of c] IH by simp
qed

lemma take_slices: "take i (slices c lastp ps) = slices c lastp (take i ps)"
  by (induction ps arbitrary: lastp i) (auto simp: take_Cons split: nat.splits)

lemma length_slices: "length (slices c lastp ps) = length ps"
  by (induction ps arbitrary: lastp) simp_all

lemma sorted_take: "sorted xs \<Longrightarrow> sorted (take i xs)"
  by (metis append_take_drop_id sorted_append)

text \<open>Stripping a run made of sentinels and of text without an opening bracket.\<close>

lemma remove_all_skip:
  "pat \<noteq> [] \<Longrightarrow> hd pat \<notin> set u \<Longrightarrow> remove_all pat (u @ r) = u @ remove_all pat r"
proof (induction u)
  case Nil
  then show ?case by simp
next
  case (Cons c u)
  then have "\<not> prefix pat (c # u @ r)"
    by (cases pat) auto
  with Cons show ?case by simp
qed

lemma remove_all_match: "pat \<noteq> [] \<Longrightarrow> remove_all pat (pat @ r) = remove_all pat r"
  by (cases pat) simp_all

lemma remove_start_keeps_end: "remove_all startTag (endTag @ r) = endTag @ remove_all startTag r"
  by (simp add: startTag_def endTag_def str_def)

lemma remove_start_render:
  "\<forall>u. Txt u \<in> set ps \<longrightarrow> 0x5B \<notin> set u \<Longrightarrow>
   remove_all startTag (render ps) = render (filter (\<lambda>p. p \<noteq> StartSentinel) ps)"
proof (induction ps rule: render.induct)
  case 1
  then show ?case by simp
next
  case (2 u ps)
  have ne: "startTag \<noteq> []" by (simp add: startTag_def str_def)
  from 2 have hd: "hd startTag \<notin> set u" by (simp add: startTag_def str_def)
  from 2 have "remove_all startTag (render ps) = render (filter (\<lambda>p. p \<noteq> StartSentinel) ps)"
    by simp
  then show ?case by (simp add: remove_all_skip [OF ne hd])
next
  case (3 ps)
  have "startTag \<noteq> []" by (simp add: startTag_def str_def)
  with 3 show ?case by (simp add: remove_all_match)
next
  case (4 ps)
  then show ?case by (simp add: remove_start_keeps_end)
qed

lemma remove_end_render:
  "\<forall>u. Txt u \<in> set ps \<longrightarrow> 0x5B \<notin> set u \<Longrightarrow> StartSentinel \<notin> set ps \<Longrightarrow>
   remove_all endTag (render ps) = plain_text ps"
proof (induction ps rule: render.induct)
  case 1
  then show ?case by simp
next
  case (2 u ps)
  have ne: "endTag \<noteq> []" by (simp add: endTag_def str_def)
  from 2 have hd: "hd endTag \<notin> set u" by (simp add: endTag_def str_def)
  from 2 have "remove_all endTag (render ps) = plain_text ps"
    by simp
  then show ?case by (simp add: remove_all_skip [OF ne hd])
next
  case (3 ps)
  then show ?case by simp
next
  case (4 ps)
  have "endTag \<noteq> []" by (simp add: endTag_def str_def)
  with 4 show ?case by (simp add: remove_all_match)
qed

lemma plain_text_filter: "plain_text (filter (\<lambda>p. p \<noteq> StartSentinel) ps) = plain_text ps"
  by (induction ps rule: plain_text.induct) simp_all

lemma strip_sentinels_render:
  assumes "\<forall>u. Txt u \<in> set ps \<longrightarrow> 0x5B \<notin> set u"
  shows "strip_sentinels (render ps) = plain_text ps"
proof -
  let ?qs = "filter (\<lambda>p. p \<noteq> StartSentinel) ps"
  have "strip_sentinels (render ps) = remove_all endTag (render ?qs)"
    by (simp add: strip_sentinels_def remove_start_render [OF assms])
  also have "\<dots> = plain_text ?qs"
    using assms by (intro remove_end_render) auto
  finally show ?thesis by (simp add: plain_text_filter)
qed

text \<open>
  Claim C2. In the mode \<open>normal\<close> (every mode but \<open>break-all\<close> and \<open>keep-all\<close> runs this
  branch) the sentinels \<open>[s]\<close> and \<open>[e]\<close> are removed first, by the two global replacements;
  the words returned concatenate, in order, to the stripped content; \<open>requiredBreaks\<close> has
  one element more than \<open>words\<close>, its element 0 is false, and its element \<open>i\<close> is the
  \<open>required\<close> flag of the break that ends token \<open>i - 1\<close>, the break found at the offset where
  the first \<open>i\<close> tokens end. The breaks of the stripped content are assumed to be ordered,
  within the string, and to end at its end. Of a run made of sentinels and of text pieces
  that hold no opening bracket, the stripped content is the text alone.
\<close>

theorem splitByBreakOpportunities_normal:
  assumes "wordBreak \<noteq> str ''break-all''" and "wordBreak \<noteq> str ''keep-all''"
    and "breaks_wf (strip_sentinels content) (breaker (strip_sentinels content))"
  shows "(\<exists>r. splitByBreakOpportunities Intl breaker st content wordBreak = Inr (r, st) \<and>
    concat (words r) = strip_sentinels content \<and>
    length (words r) = length (breaker (strip_sentinels content)) \<and>
    length (requiredBreaks r) = length (words r) + 1 \<and>
    requiredBreaks r ! 0 = False \<and>
    (\<forall>i. 1 \<le> i \<and> i \<le> length (words r) \<longrightarrow>
       requiredBreaks r ! i = snd (breaker (strip_sentinels content) ! (i - 1)) \<and>
       fst (breaker (strip_sentinels content) ! (i - 1)) = length (concat (take i (words r))))) \<and>
    ((\<forall>u. Txt u \<in> set ps \<longrightarrow> 0x5B \<notin> set u) \<longrightarrow>
       strip_sentinels (render ps) = plain_text ps)"
proof -
  let ?c = "strip_sentinels content"
  let ?bks = "breaker ?c"
  define c where "c = ?c"
  define bks where "bks = ?bks"
  define r where "r = \<lparr>words = slices c 0 (map fst bks), requiredBreaks = False # map snd bks\<rparr>"
  from assms(3) have srt: "sorted (map fst bks)"
    and bnd: "\<forall>bk \<in> set bks. fst bk \<le> length c"
    and fin: "c \<noteq> [] \<Longrightarrow> bks \<noteq> [] \<and> fst (last bks) = length c"
    by (auto simp: breaks_wf_def c_def bks_def list_all_iff split: if_splits)
  have res: "splitByBreakOpportunities Intl breaker st content wordBreak = Inr (r, st)"
    using assms(1,2)
    by (simp add: splitByBreakOpportunities_def Let_def break_loop_eq r_def c_def bks_def)
  have cat: "concat (words r) = c"
  proof (cases "c = []")
    case True
    then show ?thesis
      using concat_slices [of 0 "map fst bks" c] srt by (simp add: r_def js_slice_def)
  next
    case False
    with fin have ne: "bks \<noteq> []" and l: "fst (last bks) = length c" by simp_all
    then have "last (0 # map fst bks) = length c" by (simp add: last_map)
    then show ?thesis
      using concat_slices [of 0 "map fst bks" c] srt by (simp add: r_def js_slice_def)
  qed
  have len: "length (words r) = length bks" by (simp add: r_def length_slices)
  have pos: "requiredBreaks r ! i = snd (bks ! (i - 1)) \<and>
      fst (bks ! (i - 1)) = length (concat (take i (words r)))"
    if "1 \<le> i" and "i \<le> length (words r)" for i
  proof -
    from that len obtain j where i: "i = Suc j" and j: "j < length bks"
      by (cases i) auto
    have tk: "take i (map fst bks) = take j (map fst bks) @ [fst (bks ! j)]"
      using j by (simp add: i take_Suc_conv_app_nth)
    have "sorted (0 # take i (map fst bks))"
      using srt by (simp add: sorted_take)
    then have "concat (slices c 0 (take i (map fst bks))) =
        js_slice c 0 (last (0 # take i (map fst bks)))"
      by (rule concat_slices)
    then have "concat (take i (words r)) = take (fst (bks ! j)) c"
      by (simp add: r_def take_slices tk js_slice_def)
    moreover have "fst (bks ! j) \<le> length c"
      using bnd j by simp
    ultimately show ?thesis using j by (simp add: i r_def)
  qed
  have rb: "length (requiredBreaks r) = length (words r) + 1" "requiredBreaks r ! 0 = False"
    by (simp_all add: r_def length_slices)
  from res cat len rb pos have "\<exists>r. splitByBreakOpportunities Intl breaker st content wordBreak
      = Inr (r, st) \<and>
    concat (words r) = strip_sentinels content \<and>
    length (words r) = length (breaker (strip_sentinels content)) \<and>
    length (requiredBreaks r) = length (words r) + 1 \<and>
    requiredBreaks r ! 0 = False \<and>
    (\<forall>i. 1 \<le> i \<and> i \<le> length (words r) \<longrightarrow>
       requiredBreaks r ! i = snd (breaker (strip_sentinels content) ! (i - 1)) \<and>
       fst (breaker (strip_sentinels content) ! (i - 1)) = length (concat (take i (words r))))"
    unfolding c_def bks_def by blast
  then show ?thesis
    using strip_sentinels_render [of ps] by blast
qed

theorem splitByBreakOpportunities_normal_witness:
  "str ''normal'' \<noteq> str ''break-all'' \<and> str ''normal'' \<noteq> str ''keep-all'' \<and>
   breaks_wf (strip_sentinels (str ''The [s]quick brown[e] fox''))
     (sample_breaker (strip_sentinels (str ''The [s]quick brown[e] fox''))) \<and>
   (\<exists>r. splitByBreakOpportunities sample_Intl sample_breaker seg_state0
          (str ''The [s]quick brown[e] fox'') (str ''normal'') = Inr (r, seg_state0) \<and>
        concat (words r) = str ''The quick brown fox'' \<and>
        length (requiredBreaks r) = length (words r) + 1 \<and>
        requiredBreaks r ! 0 = False) \<and>
   strip_sentinels
     (render [Txt (str ''The ''), StartSentinel, Txt (str ''quick brown''), EndSentinel,
              Txt (str '' fox'')])
   = plain_text [Txt (str ''The ''), StartSentinel, Txt (str ''quick brown''), EndSentinel,
                 Txt (str '' fox'')]"
proof -
  let ?ps = "[Txt (str ''The ''), StartSentinel, Txt (str ''quick brown''), EndSentinel,
              Txt (str '' fox'')]"
  have nb: "\<forall>u. Txt u \<in> set ?ps \<longrightarrow> 0x5B \<notin> set u"
    by (auto simp: str_def)
  have st: "strip_sentinels (str ''The [s]quick brown[e] fox'') = str ''The quick brown fox''"
    by (simp add: strip_sentinels_def startTag_def endTag_def str_def)
  have bk: "sample_breaker (str ''The quick brown fox'') =
      [(4, False), (10, False), (16, False), (19, False)]"
    by (simp add: sample_breaker_def str_def)
  have n1: "str ''normal'' \<noteq> str ''break-all''" and n2: "str ''normal'' \<noteq> str ''keep-all''"
    by (simp_all add: str_def)
  have wf: "breaks_wf (strip_sentinels (str ''The [s]quick brown[e] fox''))
     (sample_breaker (strip_sentinels (str ''The [s]quick brown[e] fox'')))"
    unfolding st bk by (simp add: breaks_wf_def str_def)
  from splitByBreakOpportunities_normal [where wordBreak = "str ''normal''"
      and content = "str ''The [s]quick brown[e] fox''" and breaker = sample_breaker
      and Intl = sample_Intl and st = seg_state0 and ps = ?ps, OF n1 n2 wf] n1 n2 wf nb
  show ?thesis unfolding st by blast
qed

section \<open>Properties of \<open>addHighlights\<close>\<close>

text \<open>Every round of the token loop that ends normally pushes one token.\<close>

lemma highlight_word_length:
  assumes "highlight_word Intl breaker originalContent wordBreak secs (result, cur, st) word
      = Inr (result', cur', st')"
  shows "length result' = Suc (length result)"
  using assms
  by (auto simp: highlight_word_def split: option.splits sum.splits prod.splits)

lemma highlight_loop_length:
  "highlight_loop Intl breaker originalContent wordBreak secs (result, cur, st) ws
      = Inr (result', cur', st') \<Longrightarrow>
   length result' = length result + length ws"
proof (induction ws arbitrary: result cur st)
  case Nil
  then show ?case by simp
next
  case (Cons w ws)
  from Cons.prems obtain r1 c1 s1 where
    step: "highlight_word Intl breaker originalContent wordBreak secs (result, cur, st) w
      = Inr (r1, c1, s1)"
    and rest: "highlight_loop Intl breaker originalContent wordBreak secs (r1, c1, s1) ws
      = Inr (result', cur', st')"
    by (auto split: sum.splits)
  from highlight_word_length [OF step] Cons.IH [OF rest] show ?case by simp
qed

lemma addHighlights_length:
  "addHighlights Intl breaker st originalContent ws wordBreak = Inr (result, st') \<Longrightarrow>
   length result = length ws"
  by (auto simp: addHighlights_def Let_def split: sum.splits dest: highlight_loop_length)

lemma mark_sections_skip:
  "list_all (\<lambda>s. \<not> in_section s wordStartIndex) pre \<Longrightarrow>
   mark_sections Intl breaker originalContent wordBreak word coreWord punctuation wordStartIndex
     st (pre @ rest) =
   mark_sections Intl breaker originalContent wordBreak word coreWord punctuation wordStartIndex
     st rest"
  by (induction pre) (auto simp: in_section_def Let_def)

lemma match_word_chars:
  assumes "match_word word = Some (coreWord, punctuation)"
  shows "coreWord \<noteq> [] \<and> (\<forall>c \<in> set coreWord. is_word_char c) \<and>
         (\<forall>c \<in> set punctuation. \<not> is_word_char c)"
proof -
  define r where "r = dropWhile (\<lambda>c. \<not> is_word_char c) word"
  have ne: "r \<noteq> []"
  proof
    assume "r = []"
    then have "match_word word = None"
      unfolding match_word_def r_def [symmetric] by simp
    with assms show False by simp
  qed
  then obtain a l where r: "r = a # l" by (cases r) auto
  have "match_word word = Some (takeWhile is_word_char r,
      takeWhile (\<lambda>c. \<not> is_word_char c) (dropWhile is_word_char r))"
    unfolding match_word_def r_def [symmetric] unfolding r by (simp only: list.case)
  with assms have c: "coreWord = takeWhile is_word_char r"
    and p: "punctuation = takeWhile (\<lambda>c. \<not> is_word_char c) (dropWhile is_word_char r)"
    by simp_all
  from ne have "is_word_char (hd r)"
    unfolding r_def using hd_dropWhile by blast
  with ne have "coreWord \<noteq> []" by (cases r) (auto simp: c)
  moreover have "\<forall>x \<in> set coreWord. is_word_char x"
    unfolding c by (auto dest: set_takeWhileD)
  moreover have "\<forall>x \<in> set punctuation. \<not> is_word_char x"
    unfolding p by (auto dest: set_takeWhileD)
  ultimately show ?thesis by blast
qed

lemma sublist_pair_append:
  assumes "sublist [a, b] (A @ B)"
  shows "sublist [a, b] A \<or> sublist [a, b] B \<or> (suffix [a] A \<and> prefix [b] B)"
proof -
  from assms consider "sublist [a, b] A" | "sublist [a, b] B"
    | xs1 xs2 where "[a, b] = xs1 @ xs2" "suffix xs1 A" "prefix xs2 B"
    unfolding sublist_append by blast
  then show ?thesis
  proof cases
    case 3
    show ?thesis
    proof (cases xs1)
      case Nil
      with 3 have "prefix [a, b] B" by simp
      then show ?thesis by (simp add: prefix_imp_sublist)
    next
      case (Cons x xs1')
      show ?thesis
      proof (cases xs1')
        case Nil
        with Cons 3 show ?thesis by simp
      next
        case (Cons y ys)
        with \<open>xs1 = x # xs1'\<close> 3 have "suffix [a, b] A" by simp
        then show ?thesis by (simp add: suffix_imp_sublist)
      qed
    qed
  qed simp_all
qed

lemma no_end_tag:
  assumes "\<forall>c \<in> set coreWord. is_word_char c" and "\<forall>c \<in> set punctuation. \<not> is_word_char c"
  shows "\<not> sublist endTag (startTag @ coreWord @ punctuation)"
proof
  assume "sublist endTag (startTag @ coreWord @ punctuation)"
  then obtain ps ss where "startTag @ coreWord @ punctuation = ps @ endTag @ ss"
    unfolding sublist_def by blast
  then have "startTag @ coreWord @ punctuation = ps @ [0x5B, 0x65] @ (0x5D # ss)"
    by (simp add: endTag_def str_def)
  then have s: "sublist [0x5B, 0x65 :: 16 word] (startTag @ coreWord @ punctuation)"
    unfolding sublist_def by blast
  have w: "is_word_char 0x65" "\<not> is_word_char 0x5B"
    by (simp_all add: is_word_char_def)
  have st: "startTag = [0x5B, 0x73, 0x5D]" by (simp add: startTag_def str_def)
  have in_core: "\<not> sublist [0x5B, 0x65 :: 16 word] coreWord"
    using assms(1) w by (auto dest!: set_mono_sublist)
  have in_punct: "\<not> sublist [0x5B, 0x65 :: 16 word] punctuation"
    using assms(2) w by (auto dest!: set_mono_sublist)
  have in_tag: "\<not> sublist [0x5B, 0x65 :: 16 word] startTag"
    unfolding st by (auto simp: sublist_Cons_right)
  have b1: "\<not> (suffix [0x5B :: 16 word] startTag)"
    unfolding st by (simp add: suffix_def)
  have b2: "\<not> (suffix [0x5B :: 16 word] coreWord)"
    using assms(1) w by (auto simp: suffix_def)
  have "\<not> sublist [0x5B, 0x65 :: 16 word] (coreWord @ punctuation)"
    using in_core in_punct b2 by (blast dest: sublist_pair_append)
  then have "\<not> sublist [0x5B, 0x65 :: 16 word] (startTag @ (coreWord @ punctuation))"
    using in_tag b1 by (blast dest: sublist_pair_append)
  with s show False by simp
qed

text \<open>Evaluation of the mode \<open>normal\<close> on literals.\<close>

lemma split_normal:
  assumes "wordBreak \<noteq> str ''break-all''" and "wordBreak \<noteq> str ''keep-all''"
  shows "splitByBreakOpportunities Intl breaker st content wordBreak =
    Inr (\<lparr>words = slices (strip_sentinels content) 0 (map fst (breaker (strip_sentinels content))),
          requiredBreaks = False # map snd (breaker (strip_sentinels content))\<rparr>, st)"
  using assms by (simp add: splitByBreakOpportunities_def Let_def break_loop_eq)

lemmas js_eval = str_def startTag_def endTag_def undefined_str_def js_indexOf_def js_slice_def
  js_substring_def js_trim_def is_js_space_def is_word_char_def match_word_def nth_opt_def
  last_opt_def to_search_string_def index_num_def strip_sentinels_def Let_def

lemma normal_mode: "str ''normal'' \<noteq> str ''break-all''" "str ''normal'' \<noteq> str ''keep-all''"
  by (simp_all add: str_def)

text \<open>
  Claim C3. The run \<open>The [s]quick brown[e] fox\<close>, tokenized in the mode \<open>normal\<close> and passed
  through \<open>addHighlights\<close>, gives \<open>The \<close>, \<open>[s]quick \<close>, \<open>brown[e] \<close>, \<open>fox\<close>: one token
  carries the start sentinel, in front of its word run \<open>quick\<close>; one token carries the end
  sentinel, behind its word run \<open>brown\<close> and before its trailing space; the other two are
  unchanged. The line breaker is assumed to break the two strings it is given behind each
  space and at the end.
\<close>

theorem highlight_round_trip:
  assumes "map fst (breaker (str ''The quick brown fox'')) = [4, 10, 16, 19]"
    and "map fst (breaker (str ''quick brown'')) = [6, 11]"
  shows "\<exists>r. splitByBreakOpportunities Intl breaker st (str ''The [s]quick brown[e] fox'')
            (str ''normal'') = Inr (r, st) \<and>
          words r = [str ''The '', str ''quick '', str ''brown '', str ''fox''] \<and>
          addHighlights Intl breaker st (str ''The [s]quick brown[e] fox'') (words r)
            (str ''normal'')
          = Inr ([str ''The '', str ''[s]quick '', str ''brown[e] '', str ''fox''], st)"
proof -
  have s1: "strip_sentinels (str ''The [s]quick brown[e] fox'') = str ''The quick brown fox''"
    by (simp add: js_eval)
  have s2: "strip_sentinels (str ''quick brown'') = str ''quick brown''"
    by (simp add: js_eval)
  have w1: "slices (str ''The quick brown fox'') 0 [4, 10, 16, 19]
      = [str ''The '', str ''quick '', str ''brown '', str ''fox'']"
    by (simp add: js_eval)
  have w2: "slices (str ''quick brown'') 0 [6, 11] = [str ''quick '', str ''brown'']"
    by (simp add: js_eval)
  have inner: "splitByBreakOpportunities Intl breaker st' (str ''quick brown'') (str ''normal'')
      = Inr (\<lparr>words = [str ''quick '', str ''brown''],
               requiredBreaks = False # map snd (breaker (str ''quick brown''))\<rparr>, st')" for st'
    unfolding split_normal [OF normal_mode] s2 assms(2) w2 ..
  have outer: "splitByBreakOpportunities Intl breaker st (str ''The [s]quick brown[e] fox'')
      (str ''normal'')
      = Inr (\<lparr>words = [str ''The '', str ''quick '', str ''brown '', str ''fox''],
               requiredBreaks = False # map snd (breaker (str ''The quick brown fox''))\<rparr>, st)"
    unfolding split_normal [OF normal_mode] s1 assms(1) w1 ..
  have secs: "find_sections (str ''The [s]quick brown[e] fox'') 0 []
      = [\<lparr>sec_startIdx = 4, sec_endIdx = 21, sec_text = str ''quick brown''\<rparr>]"
    by (simp add: find_sections.simps js_eval)
  have hl: "addHighlights Intl breaker st (str ''The [s]quick brown[e] fox'')
      [str ''The '', str ''quick '', str ''brown '', str ''fox''] (str ''normal'')
      = Inr ([str ''The '', str ''[s]quick '', str ''brown[e] '', str ''fox''], st)"
    unfolding addHighlights_def secs
    by (simp add: highlight_word_def inner [unfolded str_def, simplified]
        start_aligned_def end_aligned_def js_eval)
  from outer hl show ?thesis by simp
qed

theorem highlight_round_trip_witness:
  "map fst (sample_breaker (str ''The quick brown fox'')) = [4, 10, 16, 19] \<and>
   map fst (sample_breaker (str ''quick brown'')) = [6, 11] \<and>
   (\<exists>r. splitByBreakOpportunities sample_Intl sample_breaker seg_state0
          (str ''The [s]quick brown[e] fox'') (str ''normal'') = Inr (r, seg_state0) \<and>
        words r = [str ''The '', str ''quick '', str ''brown '', str ''fox''] \<and>
        addHighlights sample_Intl sample_breaker seg_state0 (str ''The [s]quick brown[e] fox'')
          (words r) (str ''normal'')
        = Inr ([str ''The '', str ''[s]quick '', str ''brown[e] '', str ''fox''], seg_state0))"
proof -
  have b1: "map fst (sample_breaker (str ''The quick brown fox'')) = [4, 10, 16, 19]"
    by (simp add: sample_breaker_def str_def)
  have b2: "map fst (sample_breaker (str ''quick brown'')) = [6, 11]"
    by (simp add: sample_breaker_def str_def)
  from highlight_round_trip [OF b1 b2, of sample_Intl seg_state0] b1 b2
  show ?thesis by blast
qed

text \<open>
  Claim C4, as the code has it. A token whose word run is not found in the original content
  from the cursor on is pushed unchanged, nothing is thrown, and the cursor moves on by the
  length of the whole token.
\<close>

theorem highlight_word_not_found:
  assumes "match_word word = Some (coreWord, punctuation)"
    and "js_indexOf originalContent coreWord currentIndex = None"
  shows "highlight_word Intl breaker originalContent wordBreak highlightedSections
           (result, currentIndex, st) word
         = Inr (result @ [word], currentIndex + length word, st)"
  using assms by (simp add: highlight_word_def)

theorem highlight_word_not_found_witness:
  "match_word (str ''zzzzzzzzzz'') = Some (str ''zzzzzzzzzz'', []) \<and>
   js_indexOf (str '' [s]a[e] '') (str ''zzzzzzzzzz'') 0 = None \<and>
   highlight_word sample_Intl sample_breaker (str '' [s]a[e] '') (str ''normal'')
     (find_sections (str '' [s]a[e] '') 0 []) ([], 0, seg_state0) (str ''zzzzzzzzzz'')
   = Inr ([] @ [str ''zzzzzzzzzz''], 0 + length (str ''zzzzzzzzzz''), seg_state0)"
proof -
  have m: "match_word (str ''zzzzzzzzzz'') = Some (str ''zzzzzzzzzz'', [])"
    by (simp add: js_eval)
  have i: "js_indexOf (str '' [s]a[e] '') (str ''zzzzzzzzzz'') 0 = None"
    by (simp add: js_eval)
  from highlight_word_not_found [OF m i] m i show ?thesis by blast
qed

text \<open>
  Claim C4, as the specification words it, says that such a token does not move the cursor
  past any boundary. In the run \<open> [s]a[e] \<close>, of length 9 with its section from 1 to 8, the
  token \<open>zzzzzzzzzz\<close> is not found and moves the cursor from 0 to 10: past the start and the
  end of the section and past the end of the content. The token \<open>a\<close> behind it is then not
  found either and stays unmarked, where alone it is marked \<open>[s]a\<close>.
\<close>

theorem cursor_passes_boundaries_counterexample:
  "find_sections (str '' [s]a[e] '') 0 []
     = [\<lparr>sec_startIdx = 1, sec_endIdx = 8, sec_text = str ''a''\<rparr>] \<and>
   length (str '' [s]a[e] '') = 9 \<and>
   highlight_word sample_Intl sample_breaker (str '' [s]a[e] '') (str ''normal'')
     [\<lparr>sec_startIdx = 1, sec_endIdx = 8, sec_text = str ''a''\<rparr>] ([], 0, seg_state0)
     (str ''zzzzzzzzzz'')
   = Inr ([str ''zzzzzzzzzz''], 10, seg_state0) \<and>
   addHighlights sample_Intl sample_breaker seg_state0 (str '' [s]a[e] '')
     [str ''zzzzzzzzzz'', str ''a''] (str ''normal'')
   = Inr ([str ''zzzzzzzzzz'', str ''a''], seg_state0) \<and>
   addHighlights sample_Intl sample_breaker seg_state0 (str '' [s]a[e] '')
     [str ''a''] (str ''normal'')
   = Inr ([str ''[s]a''], seg_state0)"
proof -
  have secs: "find_sections (str '' [s]a[e] '') 0 []
     = [\<lparr>sec_startIdx = 1, sec_endIdx = 8, sec_text = str ''a''\<rparr>]"
    by (simp add: find_sections.simps js_eval)
  have inner: "splitByBreakOpportunities sample_Intl sample_breaker seg_state0 (str ''a'')
      (str ''normal'') = Inr (\<lparr>words = [str ''a''], requiredBreaks = [False, False]\<rparr>, seg_state0)"
    unfolding split_normal [OF normal_mode] by (simp add: sample_breaker_def js_eval)
  have step: "highlight_word sample_Intl sample_breaker (str '' [s]a[e] '') (str ''normal'')
     [\<lparr>sec_startIdx = 1, sec_endIdx = 8, sec_text = str ''a''\<rparr>] ([], 0, seg_state0)
     (str ''zzzzzzzzzz'') = Inr ([str ''zzzzzzzzzz''], 10, seg_state0)"
    by (simp add: highlight_word_def js_eval)
  have two: "addHighlights sample_Intl sample_breaker seg_state0 (str '' [s]a[e] '')
     [str ''zzzzzzzzzz'', str ''a''] (str ''normal'')
     = Inr ([str ''zzzzzzzzzz'', str ''a''], seg_state0)"
    unfolding addHighlights_def secs
    by (simp add: highlight_word_def js_eval)
  have one: "addHighlights sample_Intl sample_breaker seg_state0 (str '' [s]a[e] '')
     [str ''a''] (str ''normal'') = Inr ([str ''[s]a''], seg_state0)"
    unfolding addHighlights_def secs
    by (simp add: highlight_word_def inner [unfolded str_def, simplified]
        start_aligned_def end_aligned_def js_eval)
  from secs step two one show ?thesis by (simp add: str_def)
qed

text \<open>
  Claim C5. A token that lies in a section and meets both the test for the start of the
  section and the test for its end is pushed with the start sentinel in front and nothing
  else: the start test comes first and leaves the loop. The token pushed does not contain
  the end sentinel. (The proof makes no use of the end test.)
\<close>

theorem start_mark_before_end_mark:
  assumes "match_word word = Some (coreWord, punctuation)"
    and "js_indexOf originalContent coreWord currentIndex = Some wordStartIndex"
    and "list_all (\<lambda>s. \<not> in_section s wordStartIndex) pre"
    and "in_section section wordStartIndex"
    and "splitByBreakOpportunities Intl breaker st (sec_text section) wordBreak = Inr (r, st')"
    and "start_aligned originalContent (sec_startIdx section + length startTag) (words r)
           wordStartIndex"
    and "last_opt (words r) = Some lastWord"
    and "end_aligned originalContent (sec_startIdx section + length startTag) lastWord word
           coreWord wordStartIndex"
  shows "highlight_word Intl breaker originalContent wordBreak (pre @ section # rest)
           (result, currentIndex, st) word
         = Inr (result @ [startTag @ coreWord @ punctuation],
                wordStartIndex + length coreWord, st') \<and>
         \<not> sublist endTag (startTag @ coreWord @ punctuation)"
proof -
  have "mark_sections Intl breaker originalContent wordBreak word coreWord punctuation
           wordStartIndex st (section # rest)
         = Inr (Some (startTag @ coreWord @ punctuation), st')"
    using assms(4,5,6) by (simp add: in_section_def Let_def)
  then have "mark_sections Intl breaker originalContent wordBreak word coreWord punctuation
           wordStartIndex st (pre @ section # rest)
         = Inr (Some (startTag @ coreWord @ punctuation), st')"
    using mark_sections_skip [OF assms(3)] by simp
  then have "highlight_word Intl breaker originalContent wordBreak (pre @ section # rest)
           (result, currentIndex, st) word
         = Inr (result @ [startTag @ coreWord @ punctuation],
                wordStartIndex + length coreWord, st')"
    using assms(1,2) by (simp add: highlight_word_def)
  moreover from match_word_chars [OF assms(1)]
  have "\<not> sublist endTag (startTag @ coreWord @ punctuation)"
    by (intro no_end_tag) simp_all
  ultimately show ?thesis by simp
qed

theorem start_mark_before_end_mark_witness:
  "match_word (str ''b '') = Some (str ''b'', str '' '') \<and>
   js_indexOf (str ''a [s]b[e] c'') (str ''b'') 1 = Some 5 \<and>
   in_section \<lparr>sec_startIdx = 2, sec_endIdx = 9, sec_text = str ''b''\<rparr> 5 \<and>
   splitByBreakOpportunities sample_Intl sample_breaker seg_state0 (str ''b'') (str ''normal'')
     = Inr (\<lparr>words = [str ''b''], requiredBreaks = [False, False]\<rparr>, seg_state0) \<and>
   start_aligned (str ''a [s]b[e] c'') 5 [str ''b''] 5 \<and>
   end_aligned (str ''a [s]b[e] c'') 5 (str ''b'') (str ''b '') (str ''b'') 5 \<and>
   highlight_word sample_Intl sample_breaker (str ''a [s]b[e] c'') (str ''normal'')
     [\<lparr>sec_startIdx = 2, sec_endIdx = 9, sec_text = str ''b''\<rparr>]
     ([str ''a ''], 1, seg_state0) (str ''b '')
   = Inr ([str ''a '', str ''[s]b ''], 6, seg_state0) \<and>
   addHighlights sample_Intl sample_breaker seg_state0 (str ''a [s]b[e] c'')
     [str ''a '', str ''b '', str ''c''] (str ''normal'')
   = Inr ([str ''a '', str ''[s]b '', str ''c''], seg_state0)"
proof -
  let ?sec = "\<lparr>sec_startIdx = 2, sec_endIdx = 9, sec_text = str ''b''\<rparr>"
  let ?r = "\<lparr>words = [str ''b''], requiredBreaks = [False, False]\<rparr>"
  have secs: "find_sections (str ''a [s]b[e] c'') 0 [] = [?sec]"
    by (simp add: find_sections.simps js_eval)
  have m: "match_word (str ''b '') = Some (str ''b'', str '' '')"
    by (simp add: js_eval)
  have ix: "js_indexOf (str ''a [s]b[e] c'') (str ''b'') 1 = Some 5"
    by (simp add: js_eval)
  have ins: "in_section ?sec 5"
    by (simp add: in_section_def js_eval)
  have inner: "splitByBreakOpportunities sample_Intl sample_breaker seg_state0 (sec_text ?sec)
      (str ''normal'') = Inr (?r, seg_state0)"
    unfolding split_normal [OF normal_mode] by (simp add: sample_breaker_def js_eval)
  have sa: "start_aligned (str ''a [s]b[e] c'') (sec_startIdx ?sec + length startTag) (words ?r) 5"
    by (simp add: start_aligned_def js_eval)
  have lw: "last_opt (words ?r) = Some (str ''b'')"
    by (simp add: js_eval)
  have ea: "end_aligned (str ''a [s]b[e] c'') (sec_startIdx ?sec + length startTag) (str ''b'')
      (str ''b '') (str ''b'') 5"
    by (simp add: end_aligned_def js_eval)
  have pre: "list_all (\<lambda>s. \<not> in_section s 5) []" by simp
  from start_mark_before_end_mark [where rest = "[]" and result = "[str ''a '']",
      OF m ix pre ins inner sa lw ea]
  have hw: "highlight_word sample_Intl sample_breaker (str ''a [s]b[e] c'') (str ''normal'')
     [?sec] ([str ''a ''], 1, seg_state0) (str ''b '')
     = Inr ([str ''a ''] @ [startTag @ str ''b'' @ str '' ''], 5 + length (str ''b''), seg_state0)"
    by simp
  have all: "addHighlights sample_Intl sample_breaker seg_state0 (str ''a [s]b[e] c'')
     [str ''a '', str ''b '', str ''c''] (str ''normal'')
     = Inr ([str ''a '', str ''[s]b '', str ''c''], seg_state0)"
    unfolding addHighlights_def secs
    by (simp add: highlight_word_def inner [unfolded str_def, simplified]
        start_aligned_def end_aligned_def js_eval)
  from m ix ins inner sa ea hw all show ?thesis by (simp add: js_eval)
qed

text \<open>
  Claim C10 says that \<open>addHighlights\<close> returns one token for each token it is given, on every
  input. Where it returns it does (\<open>addHighlights_length\<close>), but it does not always return: in
  the mode \<open>normal\<close> the run \<open>[s][s][e] s s\<close>, with its own tokens, has a section whose text
  \<open>[s]\<close> is stripped to the empty string and has no words, and the third token, found
  inside that section, makes the code read \<open>.length\<close> of \<open>undefined\<close>. The line breaker is
  assumed to find no break in the empty string.
\<close>

theorem addHighlights_throws:
  assumes "breaker [] = []"
  shows "addHighlights Intl breaker st (str ''[s][s][e] s s'')
           [str '' '', str ''s '', str ''s''] (str ''normal'') = Inl TypeError"
proof -
  have secs: "find_sections (str ''[s][s][e] s s'') 0 []
      = [\<lparr>sec_startIdx = 0, sec_endIdx = 9, sec_text = str ''[s]''\<rparr>]"
    by (simp add: find_sections.simps js_eval)
  have inner: "splitByBreakOpportunities Intl breaker st' (str ''[s]'') (str ''normal'')
      = Inr (\<lparr>words = [], requiredBreaks = [False]\<rparr>, st')" for st'
    unfolding split_normal [OF normal_mode] by (simp add: assms js_eval)
  show ?thesis
    unfolding addHighlights_def secs
    by (simp add: highlight_word_def inner [unfolded str_def, simplified]
        start_aligned_def end_aligned_def js_eval)
qed

theorem addHighlights_throws_witness:
  "sample_breaker [] = [] \<and>
   splitByBreakOpportunities sample_Intl sample_breaker seg_state0 (str ''[s][s][e] s s'')
     (str ''normal'')
   = Inr (\<lparr>words = [str '' '', str ''s '', str ''s''],
            requiredBreaks = [False, False, False, False]\<rparr>, seg_state0) \<and>
   addHighlights sample_Intl sample_breaker seg_state0 (str ''[s][s][e] s s'')
     [str '' '', str ''s '', str ''s''] (str ''normal'') = Inl TypeError"
proof -
  have e: "sample_breaker [] = []" by (simp add: sample_breaker_def)
  have sp: "splitByBreakOpportunities sample_Intl sample_breaker seg_state0
      (str ''[s][s][e] s s'') (str ''normal'')
      = Inr (\<lparr>words = [str '' '', str ''s '', str ''s''],
            requiredBreaks = [False, False, False, False]\<rparr>, seg_state0)"
    unfolding split_normal [OF normal_mode] by (simp add: sample_breaker_def js_eval)
  from addHighlights_throws [where breaker = sample_breaker and Intl = sample_Intl
      and st = seg_state0, OF e] e sp
  show ?thesis by blast
qed

section \<open>Properties of \<open>lengthToNumber\<close> and \<open>calcDegree\<close>\<close>

lemmas num_eval = lengthToNumber_def lengthToNumber_try_def calcDegree_def not_length_syntax_def
  sample_CssDimension_def sample_numeric_string_def is_digit_def digits_value_def js_to_int32_def
  js_trim_def is_js_space_def str_def Let_def

lemma js_to_int32_nonneg:
  assumes "0 \<le> x" and "x < 2 ^ 31"
  shows "js_to_int32 x = of_int \<lfloor>x\<rfloor>"
proof -
  have lo: "0 \<le> \<lfloor>x\<rfloor>" using assms(1) by simp
  have "\<lfloor>x\<rfloor> < 2 ^ 31" using assms(2) by (simp add: floor_less_iff)
  then have hi: "\<lfloor>x\<rfloor> < 2 ^ 31" "\<lfloor>x\<rfloor> < 2 ^ 32" by simp_all
  from lo hi have "\<lfloor>x\<rfloor> mod 2 ^ 32 = \<lfloor>x\<rfloor>" by simp
  with assms(1) hi show ?thesis by (simp add: js_to_int32_def Let_def)
qed

lemma int32_wrap_neg:
  fixes t :: int
  assumes "t < 0" and "- (2 ^ 31) \<le> t"
  shows "t mod 2 ^ 32 = t + 2 ^ 32"
proof -
  have "t mod 2 ^ 32 = (t + 2 ^ 32) mod 2 ^ 32" by simp
  also have "\<dots> = t + 2 ^ 32"
    using assms by (intro mod_pos_pos_trivial) simp_all
  finally show ?thesis .
qed

lemma js_to_int32_neg:
  assumes "x < 0" and "- (2 ^ 31) \<le> x"
  shows "js_to_int32 x = of_int \<lceil>x\<rceil>"
proof -
  define t where "t = \<lceil>x\<rceil>"
  have hi: "t \<le> 0" using assms(1) by (simp add: t_def ceiling_le_iff)
  have lo: "- (2 ^ 31) \<le> t"
  proof -
    have "of_int (- (2 ^ 31)) \<le> x" using assms(2) by simp
    then have "of_int (- (2 ^ 31)) \<le> (of_int t :: real)"
      using le_of_int_ceiling [of x] unfolding t_def by linarith
    then show ?thesis by (simp only: of_int_le_iff)
  qed
  have "(let m = t mod 2 ^ 32 in real_of_int (if m \<ge> 2 ^ 31 then m - 2 ^ 32 else m))
      = of_int t"
  proof (cases "t = 0")
    case True
    then show ?thesis by simp
  next
    case False
    with hi have neg: "t < 0" by linarith
    from int32_wrap_neg [OF neg lo] lo show ?thesis by (simp add: Let_def)
  qed
  with assms(1) show ?thesis
    unfolding js_to_int32_def t_def by (simp add: Let_def)
qed

text \<open>
  Claim C7, as the code has it. A number is returned unchanged. A string is trimmed first;
  if the trimmed string holds a space, a slash, an opening parenthesis or a comma it is
  unresolved; if it is the text of a number it is returned as that number; if the parser
  throws it is unresolved; otherwise the parsed dimension decides: for a length, \<open>em\<close> gives
  \<open>value * baseFontSize\<close>, \<open>rem\<close> gives \<open>value * 16\<close>, \<open>vw\<close> and \<open>vh\<close> give
  \<open>~~(value * viewport / 100)\<close>, any other unit gives the value; an angle goes through
  \<open>calcDegree\<close>; a percentage gives \<open>value / 100 * baseLength\<close> if the flag is set and is
  unresolved if not; any other type is unresolved. \<open>~~\<close> is the floor for a quotient from 0
  up to \<open>2^31\<close>, and the ceiling for a negative one down to \<open>-2^31\<close>.
\<close>

theorem lengthToNumber_resolution:
  "lengthToNumber CssDimension numeric_string (Num n) baseFontSize baseLength inheritedStyle
     percentage = Inr (Some n) \<and>
   (not_length_syntax (js_trim s) \<longrightarrow>
      lengthToNumber CssDimension numeric_string (Str s) baseFontSize baseLength inheritedStyle
        percentage = Inr None) \<and>
   (\<not> not_length_syntax (js_trim s) \<longrightarrow> numeric_string (js_trim s) = Some m \<longrightarrow>
      lengthToNumber CssDimension numeric_string (Str s) baseFontSize baseLength inheritedStyle
        percentage = Inr (Some m)) \<and>
   (\<not> not_length_syntax (js_trim s) \<longrightarrow> numeric_string (js_trim s) = None \<longrightarrow>
      CssDimension (js_trim s) = Inl e \<longrightarrow>
      lengthToNumber CssDimension numeric_string (Str s) baseFontSize baseLength inheritedStyle
        percentage = Inr None) \<and>
   (\<not> not_length_syntax (js_trim s) \<longrightarrow> numeric_string (js_trim s) = None \<longrightarrow>
      CssDimension (js_trim s) = Inr parsed \<longrightarrow>
      lengthToNumber CssDimension numeric_string (Str s) baseFontSize baseLength inheritedStyle
        percentage
      = Inr (resolve_dimension parsed baseFontSize baseLength inheritedStyle percentage)) \<and>
   (0 \<le> x \<longrightarrow> x < 2 ^ 31 \<longrightarrow> js_to_int32 x = of_int \<lfloor>x\<rfloor>) \<and>
   (x < 0 \<longrightarrow> - (2 ^ 31) \<le> x \<longrightarrow> js_to_int32 x = of_int \<lceil>x\<rceil>)"
proof -
  have parsed: "lengthToNumber CssDimension numeric_string (Str s) baseFontSize baseLength
        inheritedStyle percentage
      = Inr (resolve_dimension parsed baseFontSize baseLength inheritedStyle percentage)"
    if "\<not> not_length_syntax (js_trim s)" "numeric_string (js_trim s) = None"
      "CssDimension (js_trim s) = Inr parsed"
    using that
    by (simp add: lengthToNumber_def lengthToNumber_try_def calcDegree_def resolve_dimension_def
        Let_def)
  show ?thesis
    using parsed js_to_int32_nonneg [of x] js_to_int32_neg [of x]
    by (simp add: lengthToNumber_def lengthToNumber_try_def Let_def)
qed

theorem lengthToNumber_resolution_witness:
  "not_length_syntax (js_trim (str ''1px 2px'')) \<and>
   lengthToNumber sample_CssDimension sample_numeric_string (Str (str ''1px 2px'')) 10 200
     \<lparr>viewportWidth = 1200, viewportHeight = 630\<rparr> True = Inr None \<and>
   \<not> not_length_syntax (js_trim (str ''10'')) \<and>
   sample_numeric_string (js_trim (str ''10'')) = Some 10 \<and>
   lengthToNumber sample_CssDimension sample_numeric_string (Str (str ''10'')) 10 200
     \<lparr>viewportWidth = 1200, viewportHeight = 630\<rparr> True = Inr (Some 10) \<and>
   \<not> not_length_syntax (js_trim (str ''abc'')) \<and>
   sample_numeric_string (js_trim (str ''abc'')) = None \<and>
   sample_CssDimension (js_trim (str ''abc'')) = Inl ParseError \<and>
   lengthToNumber sample_CssDimension sample_numeric_string (Str (str ''abc'')) 10 200
     \<lparr>viewportWidth = 1200, viewportHeight = 630\<rparr> True = Inr None \<and>
   \<not> not_length_syntax (js_trim (str ''2em'')) \<and>
   sample_numeric_string (js_trim (str ''2em'')) = None \<and>
   sample_CssDimension (js_trim (str ''2em''))
     = Inr \<lparr>dim_type = str ''length'', dim_unit = str ''em'', dim_value = 2\<rparr> \<and>
   lengthToNumber sample_CssDimension sample_numeric_string (Str (str ''2em'')) 10 200
     \<lparr>viewportWidth = 1200, viewportHeight = 630\<rparr> True = Inr (Some 20) \<and>
   js_to_int32 (7 / 2) = 3 \<and> js_to_int32 (- 3 / 2) = - 1"
proof -
  let ?st = "\<lparr>viewportWidth = 1200, viewportHeight = 630\<rparr>"
  let ?em = "\<lparr>dim_type = str ''length'', dim_unit = str ''em'', dim_value = 2\<rparr>"
  have a1: "not_length_syntax (js_trim (str ''1px 2px''))"
    by (simp add: num_eval)
  have b1: "\<not> not_length_syntax (js_trim (str ''10''))"
    and b2: "sample_numeric_string (js_trim (str ''10'')) = Some 10"
    by (simp_all add: num_eval)
  have c1: "\<not> not_length_syntax (js_trim (str ''abc''))"
    and c2: "sample_numeric_string (js_trim (str ''abc'')) = None"
    and c3: "sample_CssDimension (js_trim (str ''abc'')) = Inl ParseError"
    by (simp_all add: num_eval)
  have d1: "\<not> not_length_syntax (js_trim (str ''2em''))"
    and d2: "sample_numeric_string (js_trim (str ''2em'')) = None"
    and d3: "sample_CssDimension (js_trim (str ''2em'')) = Inr ?em"
    by (simp_all add: num_eval)
  have d4: "resolve_dimension ?em 10 200 ?st True = Some 20"
    by (simp add: resolve_dimension_def str_def)
  have x1: "(0::real) \<le> 7 / 2" "(7 / 2 :: real) < 2 ^ 31" "\<lfloor>7 / 2 :: real\<rfloor> = 3"
    and x2: "(- 3 / 2 :: real) < 0" "- (2 ^ 31) \<le> (- 3 / 2 :: real)" "\<lceil>- 3 / 2 :: real\<rceil> = - 1"
    by simp_all
  note th = lengthToNumber_resolution [where CssDimension = sample_CssDimension
      and numeric_string = sample_numeric_string and baseFontSize = 10 and baseLength = 200
      and inheritedStyle = ?st and percentage = True]
  from th [where s = "str ''1px 2px''"] a1
  have r1: "lengthToNumber sample_CssDimension sample_numeric_string (Str (str ''1px 2px''))
      10 200 ?st True = Inr None"
    by blast
  from th [where s = "str ''10''" and m = 10] b1 b2
  have r2: "lengthToNumber sample_CssDimension sample_numeric_string (Str (str ''10''))
      10 200 ?st True = Inr (Some 10)"
    by blast
  from th [where s = "str ''abc''" and e = ParseError] c1 c2 c3
  have r3: "lengthToNumber sample_CssDimension sample_numeric_string (Str (str ''abc''))
      10 200 ?st True = Inr None"
    by blast
  from th [where s = "str ''2em''" and parsed = ?em] d1 d2 d3 d4
  have r4: "lengthToNumber sample_CssDimension sample_numeric_string (Str (str ''2em''))
      10 200 ?st True = Inr (Some 20)"
    by simp
  from th [where x = "7 / 2"] x1 have r5: "js_to_int32 (7 / 2) = 3" by simp
  from th [where x = "- 3 / 2"] x2 have r6: "js_to_int32 (- 3 / 2) = - 1" by simp
  from a1 r1 b1 b2 r2 c1 c2 c3 r3 d1 d2 d3 r4 r5 r6 show ?thesis by blast
qed

text \<open>
  Claim C7, as the specification words it, fails in two places. The string \<open> 16px\<close> holds a
  space and resolves to 16, since the test comes after \<open>trim\<close>. And \<open>-1.5vw\<close> at a viewport
  width of 100 resolves to \<open>-1\<close>, where the floor of \<open>-1.5\<close> is \<open>-2\<close>.
\<close>

theorem lengthToNumber_space_floor_counterexample:
  "0x20 \<in> set (str '' 16px'') \<and>
   lengthToNumber sample_CssDimension sample_numeric_string (Str (str '' 16px'')) 10 200
     \<lparr>viewportWidth = 100, viewportHeight = 100\<rparr> False = Inr (Some 16) \<and>
   lengthToNumber sample_CssDimension sample_numeric_string (Str (str ''-1.5vw'')) 10 200
     \<lparr>viewportWidth = 100, viewportHeight = 100\<rparr> False = Inr (Some (- 1)) \<and>
   real_of_int \<lfloor>(- 15 / 10) * 100 / 100 :: real\<rfloor> = - 2"
  by (simp add: num_eval)

text \<open>
  Claim C8, as the code has it. \<open>lengthToNumber\<close> never throws: whatever the parser throws
  inside its \<open>try\<close> block becomes the result \<open>undefined\<close>. \<open>calcDegree\<close> returns \<open>undefined\<close> for
  a dimension that parses with a unit other than \<open>deg\<close>, \<open>rad\<close>, \<open>turn\<close> and \<open>grad\<close>, and
  passes on to its caller the exception of a string that does not parse.
\<close>

theorem parse_failures_unresolved:
  "(\<exists>r. lengthToNumber CssDimension numeric_string len baseFontSize baseLength inheritedStyle
          percentage = Inr r) \<and>
   (\<not> not_length_syntax (js_trim s) \<longrightarrow> numeric_string (js_trim s) = None \<longrightarrow>
      CssDimension (js_trim s) = Inl e \<longrightarrow>
      lengthToNumber CssDimension numeric_string (Str s) baseFontSize baseLength inheritedStyle
        percentage = Inr None) \<and>
   (CssDimension deg = Inr parsed \<longrightarrow>
      dim_unit parsed \<notin> {str ''deg'', str ''rad'', str ''turn'', str ''grad''} \<longrightarrow>
      calcDegree CssDimension deg = Inr None) \<and>
   (CssDimension deg = Inl e \<longrightarrow> calcDegree CssDimension deg = Inl e)"
proof -
  have "\<exists>r. lengthToNumber CssDimension numeric_string len baseFontSize baseLength
      inheritedStyle percentage = Inr r"
    by (cases len) (auto simp: lengthToNumber_def split: sum.splits)
  then show ?thesis
    by (simp add: lengthToNumber_def lengthToNumber_try_def calcDegree_def Let_def)
qed

theorem parse_failures_unresolved_witness:
  "\<not> not_length_syntax (js_trim (str ''abc'')) \<and>
   sample_numeric_string (js_trim (str ''abc'')) = None \<and>
   sample_CssDimension (js_trim (str ''abc'')) = Inl ParseError \<and>
   lengthToNumber sample_CssDimension sample_numeric_string (Str (str ''abc'')) 10 200
     \<lparr>viewportWidth = 1200, viewportHeight = 630\<rparr> True = Inr None \<and>
   sample_CssDimension (str ''16px'')
     = Inr \<lparr>dim_type = str ''length'', dim_unit = str ''px'', dim_value = 16\<rparr> \<and>
   calcDegree sample_CssDimension (str ''16px'') = Inr None \<and>
   calcDegree sample_CssDimension (str ''abc'') = Inl ParseError"
proof -
  let ?st = "\<lparr>viewportWidth = 1200, viewportHeight = 630\<rparr>"
  let ?px = "\<lparr>dim_type = str ''length'', dim_unit = str ''px'', dim_value = 16\<rparr>"
  have c1: "\<not> not_length_syntax (js_trim (str ''abc''))"
    and c2: "sample_numeric_string (js_trim (str ''abc'')) = None"
    and c3: "sample_CssDimension (js_trim (str ''abc'')) = Inl ParseError"
    and c4: "sample_CssDimension (str ''abc'') = Inl ParseError"
    by (simp_all add: num_eval)
  have p1: "sample_CssDimension (str ''16px'') = Inr ?px"
    by (simp add: num_eval)
  have p2: "dim_unit ?px \<notin> {str ''deg'', str ''rad'', str ''turn'', str ''grad''}"
    by (simp add: str_def)
  note th = parse_failures_unresolved [where CssDimension = sample_CssDimension
      and numeric_string = sample_numeric_string and baseFontSize = 10 and baseLength = 200
      and inheritedStyle = ?st and percentage = True and e = ParseError]
  from th [where s = "str ''abc''"] c1 c2 c3
  have r1: "lengthToNumber sample_CssDimension sample_numeric_string (Str (str ''abc''))
      10 200 ?st True = Inr None"
    by blast
  from th [where deg = "str ''16px''" and parsed = ?px] p1 p2
  have r2: "calcDegree sample_CssDimension (str ''16px'') = Inr None"
    by blast
  from th [where deg = "str ''abc''"] c4
  have r3: "calcDegree sample_CssDimension (str ''abc'') = Inl ParseError"
    by blast
  from c1 c2 c3 r1 p1 r2 r3 show ?thesis by blast
qed

text \<open>
  Claim C8, as the specification words it, says that \<open>calcDegree\<close> never throws. With a
  parser that rejects \<open>abc\<close>, \<open>calcDegree\<close> on \<open>abc\<close> ends in the parser's exception.
\<close>

theorem calcDegree_throws_counterexample:
  "sample_CssDimension (str ''abc'') = Inl ParseError \<and>
   calcDegree sample_CssDimension (str ''abc'') = Inl ParseError"
  by (simp add: num_eval)

section \<open>Properties of the grouping\<close>

lemma dedup_snoc: "dedup (xs @ [x]) = (if x \<in> set xs then dedup xs else dedup xs @ [x])"
  by (simp add: dedup_def)

lemma set_dedup: "set (dedup xs) = set xs"
  by (simp add: dedup_def)

lemma dedup_Nil: "dedup [] = []"
  by (simp add: dedup_def)

lemma map_of_tabulate:
  "map_of (map (\<lambda>k. (k, f k)) ks) k = (if k \<in> set ks then Some (f k) else None)"
  by (induction ks) auto

lemma record_set_tabulate_old:
  "code \<in> set ks \<Longrightarrow>
   record_set code v (map (\<lambda>k. (k, f k)) ks) = map (\<lambda>k. (k, if k = code then v else f k)) ks"
  by (simp add: record_set_def comp_def)

lemma record_set_tabulate_new:
  "code \<notin> set ks \<Longrightarrow>
   record_set code v (map (\<lambda>k. (k, f k)) ks) = map (\<lambda>k. (k, f k)) ks @ [(code, v)]"
  by (simp add: record_set_def comp_def)

lemma bucket_of_snoc_other:
  "detect g \<noteq> code \<Longrightarrow> bucket_of detect (gs @ [g]) code = bucket_of detect gs code"
  by (simp add: bucket_of_def)

lemma bucket_of_fresh:
  assumes "code \<notin> set (map detect gs)" and "detect g = code"
  shows "bucket_of detect (gs @ [g]) code = [g]"
proof -
  from assms(1) have "\<forall>x \<in> set gs. detect x \<noteq> code"
    by (metis imageI set_map)
  then have "filter (\<lambda>x. detect x = code) gs = []"
    by (simp add: filter_empty_conv)
  then show ?thesis by (auto simp: bucket_of_def assms(2))
qed

lemma buckets_spec_snoc:
  "buckets_spec detect (gs @ [g]) = bucket_step detect (buckets_spec detect gs) g"
proof (cases "detect g \<in> set (map detect gs)")
  case True
  let ?c = "detect g"
  have ex: "map_of (buckets_spec detect gs) ?c = Some (bucket_of detect gs ?c)"
    using True by (simp add: buckets_spec_def map_of_tabulate set_dedup)
  have upd: "(case bucket_of detect gs ?c of [] \<Rightarrow> [g] | first # rest \<Rightarrow> (first @ g) # rest)
      = bucket_of detect (gs @ [g]) ?c" if "?c \<noteq> str ''emoji''"
    using that by (simp add: bucket_of_def)
  have upd_e: "bucket_of detect gs ?c @ [g] = bucket_of detect (gs @ [g]) ?c"
    if "?c = str ''emoji''"
    using that by (simp add: bucket_of_def)
  have in_d: "?c \<in> set (dedup (map detect gs))" using True by (simp add: set_dedup)
  have "bucket_step detect (buckets_spec detect gs) g
      = (if ?c = str ''emoji''
         then record_set ?c (bucket_of detect gs ?c @ [g]) (buckets_spec detect gs)
         else record_set ?c
                (case bucket_of detect gs ?c of [] \<Rightarrow> [g] | first # rest \<Rightarrow> (first @ g) # rest)
                (buckets_spec detect gs))"
    unfolding bucket_step_def Let_def ex option.case ..
  also have "\<dots> = record_set ?c (bucket_of detect (gs @ [g]) ?c) (buckets_spec detect gs)"
  proof (cases "?c = str ''emoji''")
    case True
    show ?thesis unfolding upd_e [OF True] using True by simp
  next
    case False
    show ?thesis unfolding upd [OF False] using False by simp
  qed
  also have "\<dots> = map (\<lambda>k. (k, if k = ?c then bucket_of detect (gs @ [g]) ?c
      else bucket_of detect gs k)) (dedup (map detect gs))"
    unfolding buckets_spec_def by (rule record_set_tabulate_old [OF in_d])
  also have "\<dots> = map (\<lambda>k. (k, bucket_of detect (gs @ [g]) k)) (dedup (map detect gs))"
    by (rule map_cong) (auto simp: bucket_of_snoc_other)
  also have "\<dots> = buckets_spec detect (gs @ [g])"
    using True by (simp add: buckets_spec_def dedup_snoc)
  finally show ?thesis by simp
next
  case False
  let ?c = "detect g"
  have ex: "map_of (buckets_spec detect gs) ?c = None"
    using False by (simp add: buckets_spec_def map_of_tabulate set_dedup)
  have nin: "?c \<notin> set (dedup (map detect gs))" using False by (simp add: set_dedup)
  have "bucket_step detect (buckets_spec detect gs) g
      = record_set ?c [g] (buckets_spec detect gs)"
    unfolding bucket_step_def Let_def ex option.case by simp
  also have "\<dots> = map (\<lambda>k. (k, bucket_of detect gs k)) (dedup (map detect gs)) @ [(?c, [g])]"
    unfolding buckets_spec_def by (rule record_set_tabulate_new [OF nin])
  also have "map (\<lambda>k. (k, bucket_of detect gs k)) (dedup (map detect gs))
      = map (\<lambda>k. (k, bucket_of detect (gs @ [g]) k)) (dedup (map detect gs))"
    using nin by (intro map_cong refl) (metis bucket_of_snoc_other)
  finally show ?thesis
    using False bucket_of_fresh [OF False refl]
    by (simp add: buckets_spec_def dedup_snoc)
qed

lemma foldl_bucket_step:
  "foldl (bucket_step detect) [] gs = buckets_spec detect gs"
proof (induction gs rule: rev_induct)
  case Nil
  then show ?case by (simp add: buckets_spec_def dedup_Nil)
next
  case (snoc g gs)
  then show ?case by (simp add: buckets_spec_snoc)
qed

lemma distinct_dedup: "distinct (dedup xs)"
  by (simp add: dedup_def)

lemma length_loader_calls: "length (loader_calls bs) = sum_list (map (\<lambda>e. length (snd e)) bs)"
  by (induction bs) (simp_all add: loader_calls_def)

text \<open>
  Claim C9. With a loader given and segments missing, the graphemes of the joined segments
  are deduplicated, each is classified by the detector, and the calls of the loader are
  those of the grouping above: one call for each entry of each bucket, with the code and the
  entry's text. For the graphemes U+6F22, U+5B57 and U+1F600, the first two detected as
  \<open>ja\<close> and the third as \<open>emoji\<close>, the calls are the two calls \<open>(ja, U+6F22 U+5B57)\<close> and
  \<open>(emoji, U+1F600)\<close>.
\<close>

theorem asset_grouping:
  assumes "loadAdditionalAsset" and "segmentsMissingFont \<noteq> []"
    and "segment Intl st (concat segmentsMissingFont) GGrapheme None = Inr (graphemes, st')"
  shows "asset_requests Intl st detect loadAdditionalAsset segmentsMissingFont
           = Inr (loader_calls (buckets_spec detect (dedup graphemes)), st') \<and>
         distinct (dedup graphemes) \<and> set (dedup graphemes) = set graphemes \<and>
         length (loader_calls (buckets_spec detect (dedup graphemes)))
           = sum_list (map (\<lambda>e. length (snd e)) (buckets_spec detect (dedup graphemes))) \<and>
         (graphemes = [[0x6F22], [0x5B57], [0xD83D, 0xDE00]] \<longrightarrow>
          detect [0x6F22] = str ''ja'' \<longrightarrow> detect [0x5B57] = str ''ja'' \<longrightarrow>
          detect [0xD83D, 0xDE00] = str ''emoji'' \<longrightarrow>
          asset_requests Intl st detect loadAdditionalAsset segmentsMissingFont
            = Inr ([(str ''ja'', [0x6F22, 0x5B57]), (str ''emoji'', [0xD83D, 0xDE00])], st'))"
proof -
  have main: "asset_requests Intl st detect loadAdditionalAsset segmentsMissingFont
      = Inr (loader_calls (buckets_spec detect (dedup graphemes)), st')"
    using assms by (simp add: asset_requests_def foldl_bucket_step)
  have ex: "loader_calls (buckets_spec detect (dedup graphemes))
      = [(str ''ja'', [0x6F22, 0x5B57]), (str ''emoji'', [0xD83D, 0xDE00])]"
    if g: "graphemes = [[0x6F22], [0x5B57], [0xD83D, 0xDE00]]"
      and d: "detect [0x6F22] = str ''ja''" "detect [0x5B57] = str ''ja''"
        "detect [0xD83D, 0xDE00] = str ''emoji''"
  proof -
    have ne: "str ''ja'' \<noteq> str ''emoji''" by (simp add: str_def)
    have dd: "dedup graphemes = graphemes"
      unfolding g by (simp add: dedup_def)
    have codes: "dedup (map detect graphemes) = [str ''ja'', str ''emoji'']"
      unfolding g using ne by (simp add: dedup_def d)
    have b1: "bucket_of detect graphemes (str ''ja'') = [[0x6F22, 0x5B57]]"
      unfolding g using ne by (simp add: bucket_of_def d)
    have b2: "bucket_of detect graphemes (str ''emoji'') = [[0xD83D, 0xDE00]]"
      unfolding g using ne by (simp add: bucket_of_def d)
    show ?thesis
      unfolding dd buckets_spec_def codes by (simp add: loader_calls_def b1 b2)
  qed
  from main ex show ?thesis
    by (simp add: distinct_dedup set_dedup length_loader_calls)
qed

theorem asset_grouping_witness:
  "[[0x6F22], [0x5B57], [0xD83D, 0xDE00 :: 16 word]] \<noteq> [] \<and>
   segment sample_Intl seg_state0 (concat [[0x6F22], [0x5B57], [0xD83D, 0xDE00]]) GGrapheme None
     = Inr ([[0x6F22], [0x5B57], [0xD83D, 0xDE00]],
            \<lparr>wordSegmenter = Some word_runs, graphemeSegmenter = Some code_points\<rparr>) \<and>
   asset_requests sample_Intl seg_state0
     (\<lambda>g. if g = [0xD83D, 0xDE00] then str ''emoji'' else str ''ja'') True
     [[0x6F22], [0x5B57], [0xD83D, 0xDE00]]
   = Inr ([(str ''ja'', [0x6F22, 0x5B57]), (str ''emoji'', [0xD83D, 0xDE00])],
          \<lparr>wordSegmenter = Some word_runs, graphemeSegmenter = Some code_points\<rparr>)"
proof -
  let ?st = "\<lparr>wordSegmenter = Some word_runs, graphemeSegmenter = Some code_points\<rparr>"
  let ?d = "\<lambda>g :: jsstring. if g = [0xD83D, 0xDE00] then str ''emoji'' else str ''ja''"
  have ne: "[[0x6F22], [0x5B57], [0xD83D, 0xDE00 :: 16 word]] \<noteq> []" by simp
  have sg: "segment sample_Intl seg_state0 (concat [[0x6F22], [0x5B57], [0xD83D, 0xDE00]])
      GGrapheme None = Inr ([[0x6F22], [0x5B57], [0xD83D, 0xDE00]], ?st)"
    by (simp add: segment_def ensure_segmenters_def sample_Intl_def seg_state0_def)
  have d: "?d [0x6F22] = str ''ja''" "?d [0x5B57] = str ''ja''"
    "?d [0xD83D, 0xDE00] = str ''emoji''"
    by simp_all
  from asset_grouping [where detect = ?d, OF TrueI ne sg] d
  have "asset_requests sample_Intl seg_state0 ?d True [[0x6F22], [0x5B57], [0xD83D, 0xDE00]]
      = Inr ([(str ''ja'', [0x6F22, 0x5B57]), (str ''emoji'', [0xD83D, 0xDE00])], ?st)"
    by blast
  with ne sg show ?thesis by blast
qed

end
